theory Spec2Isabelle
  imports
    Complex_Main
    "HOL-Library.Sublist"
    "HOL-Library.Char_ord"
    "HOL-Library.List_Lexorder"
    "HOL-Library.AList"
    "HOL-Library.Extended_Nat"
begin

section \<open>JavaScript values used by cscan\<close>

text \<open>
  A JavaScript number is modelled as \<open>NaN\<close> or a value. All numbers the scanner handles are
  integers (millisecond time values, line counts) except the median, which may be a half.
  Arithmetic on them is floating-point arithmetic: the result of an operation is the exact
  result rounded to the nearest double (53 significant bits, ties to the even significand).
  Strings are lists of code units; \<open>length\<close> is the JavaScript \<open>.length\<close>.
\<close>

datatype 'a number = NaN | Num 'a

datatype error = TypeError | RangeError

definition MAX_SAFE_INTEGER :: int where
  "MAX_SAFE_INTEGER = 9007199254740991"

definition MIN_SAFE_INTEGER :: int where
  "MIN_SAFE_INTEGER = - 9007199254740991"

text \<open>\<open>a > b\<close> and \<open>a < b\<close> on numbers: any comparison with \<open>NaN\<close> is false.\<close>

fun gt :: "int number \<Rightarrow> int number \<Rightarrow> bool" where
  "gt (Num a) (Num b) = (a > b)"
| "gt _ _ = False"

fun lt :: "int number \<Rightarrow> int number \<Rightarrow> bool" where
  "lt (Num a) (Num b) = (a < b)"
| "lt _ _ = False"

subsection \<open>Rounding to a double\<close>

text \<open>
  The distance between neighbouring doubles at a magnitude \<open>m\<close>: 1 below \<open>2^53\<close>, 2 from
  \<open>2^53\<close> to \<open>2^54\<close>, and doubling with every further binary digit.
\<close>

function ulpOf :: "nat \<Rightarrow> nat" where
  "ulpOf m = (if m < 2 ^ 53 then 1 else 2 * ulpOf (m div 2))"
  by pat_completeness auto
termination
  by (relation "measure id") auto

declare ulpOf.simps [simp del]

text \<open>
  A natural number rounded to the nearest number with 53 significant bits; halfway between
  two of them, to the one whose significand is even.
\<close>

definition roundToDouble :: "nat \<Rightarrow> nat" where
  "roundToDouble m =
     (let u = ulpOf m; q = m div u; r = m mod u
      in if 2 * r < u \<or> (2 * r = u \<and> even q) then q * u else (q + 1) * u)"

text \<open>
  The double nearest to an integer. Time values are at most \<open>8.64e15\<close> in magnitude, so the
  integers rounded here are below \<open>2^54\<close> and far from overflow.
\<close>

definition toDouble :: "int \<Rightarrow> int" where
  "toDouble x = sgn x * int (roundToDouble (nat \<bar>x\<bar>))"

text \<open>\<open>a - b\<close> on numbers: the difference of two time values, rounded.\<close>

fun minus_number :: "int number \<Rightarrow> int number \<Rightarrow> int number" where
  "minus_number (Num a) (Num b) = Num (toDouble (a - b))"
| "minus_number _ _ = NaN"

text \<open>
  Line counts are non-negative and can grow without bound with the digits of a line, so a
  count is a natural number that is a double, or \<open>Infinity\<close> (here \<open>\<infinity>\<close>), which is what the
  rounding yields from \<open>2^1024 - 2^970\<close> on. \<open>plus_count\<close> is \<open>a + b\<close> on counts.
\<close>

definition toCount :: "nat \<Rightarrow> enat" where
  "toCount n = (if roundToDouble n < 2 ^ 1024 then enat (roundToDouble n) else \<infinity>)"

definition plus_count :: "enat \<Rightarrow> enat \<Rightarrow> enat" where
  "plus_count a b = (case a + b of enat n \<Rightarrow> toCount n | \<infinity> \<Rightarrow> \<infinity>)"

subsection \<open>String.prototype.split, trim, endsWith\<close>

definition newline :: char where
  "newline = CHR 0x0A"

text \<open>
  \<open>s.split(sep)\<close> for a string separator: the pieces between the successive leftmost,
  non-overlapping occurrences of \<open>sep\<close>. With the empty separator the string falls apart
  into its code units; the empty string yields one empty piece otherwise.
\<close>

function (sequential) split :: "string \<Rightarrow> string \<Rightarrow> string list" where
  "split [] s = map (\<lambda>c. [c]) s"
| "split sep [] = [[]]"
| "split sep (c # cs) =
     (if prefix sep (c # cs) then [] # split sep (drop (length sep) (c # cs))
      else (case split sep cs of [] \<Rightarrow> [[c]] | p # ps \<Rightarrow> (c # p) # ps))"
  by pat_completeness auto
termination
  by (relation "measure (\<lambda>(sep, s). length s)") auto

text \<open>White space and line terminators stripped by \<open>trim\<close> (those below code unit 256).\<close>

definition isWhiteSpace :: "char \<Rightarrow> bool" where
  "isWhiteSpace c \<longleftrightarrow>
     c \<in> set [CHR 0x09, CHR 0x0A, CHR 0x0B, CHR 0x0C, CHR 0x0D, CHR 0x20, CHR 0xA0]"

definition trim :: "string \<Rightarrow> string" where
  "trim s = rev (dropWhile isWhiteSpace (rev (dropWhile isWhiteSpace s)))"

definition endsWith :: "string \<Rightarrow> string \<Rightarrow> bool" where
  "endsWith s suf = suffix suf s"

subsection \<open>The regular expressions \<open>/(\d+) insertion/\<close> and \<open>/(\d+) deletion/\<close>\<close>

text \<open>\<open>\d\<close>: the code units of \<open>0\<close> to \<open>9\<close>.\<close>

definition isDigit :: "char \<Rightarrow> bool" where
  "isDigit c \<longleftrightarrow> 48 \<le> (of_char c :: nat) \<and> (of_char c :: nat) \<le> 57"

text \<open>
  \<open>s.match(/(\d+) word/)\<close>, returning capture group 1 of the leftmost match or \<open>None\<close>
  for \<open>null\<close>. At a start position the greedy \<open>\d+\<close> takes the whole run of digits; giving
  digits back cannot help, since the next pattern character is a space. So the match at a
  position succeeds exactly when the run is non-empty and is followed by a space and the
  word.
\<close>

fun matchDigitsWord :: "string \<Rightarrow> string \<Rightarrow> string option" where
  "matchDigitsWord word [] = None"
| "matchDigitsWord word (c # cs) =
     (if takeWhile isDigit (c # cs) \<noteq> []
         \<and> prefix (CHR '' '' # word) (dropWhile isDigit (c # cs))
      then Some (takeWhile isDigit (c # cs))
      else matchDigitsWord word cs)"

definition insertionsMatch :: "string \<Rightarrow> string option" where
  "insertionsMatch changes = matchDigitsWord ''insertion'' changes"

definition deletionsMatch :: "string \<Rightarrow> string option" where
  "deletionsMatch changes = matchDigitsWord ''deletion'' changes"

text \<open>
  \<open>parseInt\<close> on a string of decimal digits, which is all capture group 1 can hold: the
  double nearest to the number the digits denote.
\<close>

definition digitValue :: "char \<Rightarrow> nat" where
  "digitValue c = of_char c - 48"

definition decimalValue :: "string \<Rightarrow> nat" where
  "decimalValue ds = foldl (\<lambda>n c. 10 * n + digitValue c) 0 ds"

definition parseInt :: "string \<Rightarrow> enat" where
  "parseInt ds = toCount (decimalValue ds)"

section \<open>The log parser\<close>

text \<open>
  A \<open>Date\<close> is represented by its time value: \<open>Num t\<close> for \<open>t\<close> milliseconds since the epoch,
  \<open>NaN\<close> for an invalid date. \<open>changes\<close> is a sum of two parsed digit strings, hence a
  count.
\<close>

record commit =
  hash :: string
  author :: string
  message :: string
  timestamp :: "int number"
  changes :: enat

text \<open>The separator \<open>'.\n.'\<close> that the log format puts in front of every commit.\<close>

definition delimiter :: string where
  "delimiter = [CHR ''.'', newline, CHR ''.'']"

text \<open>
  \<open>rawLog.toString().split('.\n.').map(commit => commit.trim())\<close> followed by
  \<open>commitStrings.shift()\<close>, which drops the first piece (and leaves an empty array empty).
\<close>

definition commitStrings :: "string \<Rightarrow> string list" where
  "commitStrings rawLog = tl (map trim (split delimiter rawLog))"

text \<open>
  The body of the \<open>map\<close> callback. \<open>newDate\<close> stands for the platform's \<open>new Date(time)\<close>.
  The destructuring binds \<open>hash\<close>, \<open>email\<close>, \<open>message\<close>, \<open>time\<close> to the first four lines and
  \<open>stats\<close> to the rest. When there is no fifth line, \<open>stats.pop()\<close> is \<open>undefined\<close> and
  \<open>changes.match\<close> throws a TypeError, before anything else is read. Otherwise
  \<open>changes\<close> is the last line, and \<open>insertions\<close> and \<open>deletions\<close> are the parsed capture
  groups, or 0 where the match is \<open>null\<close>.
\<close>

definition insertions :: "string \<Rightarrow> enat" where
  "insertions changesLine =
     (case insertionsMatch changesLine of Some m \<Rightarrow> parseInt m | None \<Rightarrow> 0)"

definition deletions :: "string \<Rightarrow> enat" where
  "deletions changesLine =
     (case deletionsMatch changesLine of Some m \<Rightarrow> parseInt m | None \<Rightarrow> 0)"

definition parseCommit :: "(string \<Rightarrow> int number) \<Rightarrow> string \<Rightarrow> error + commit" where
  "parseCommit newDate commitString =
     (case split [newline] commitString of
        h # email # msg # time # stats \<Rightarrow>
          (if stats = [] then Inl TypeError
           else Inr \<lparr> hash = h,
                      author = hd (split ''@'' email),
                      message = msg,
                      timestamp = newDate time,
                      changes = plus_count (insertions (last stats)) (deletions (last stats)) \<rparr>)
      | _ \<Rightarrow> Inl TypeError)"

text \<open>\<open>Array.prototype.map\<close> with a callback that may throw: the first exception ends it.\<close>

fun mapThrowing :: "('a \<Rightarrow> error + 'b) \<Rightarrow> 'a list \<Rightarrow> error + 'b list" where
  "mapThrowing f [] = Inr []"
| "mapThrowing f (x # xs) =
     (case f x of
        Inl e \<Rightarrow> Inl e
      | Inr y \<Rightarrow> (case mapThrowing f xs of Inl e \<Rightarrow> Inl e | Inr ys \<Rightarrow> Inr (y # ys)))"

definition commits :: "(string \<Rightarrow> int number) \<Rightarrow> string \<Rightarrow> error + commit list" where
  "commits newDate rawLog = mapThrowing (parseCommit newDate) (commitStrings rawLog)"

section \<open>CSV export path\<close>

text \<open>
  The file name correction of the CSV branch; \<open>sep\<close> stands for \<open>path.sep\<close>:
  \<^verbatim>\<open>if (outFile.endsWith(path.sep)) outFile += 'commits.csv';\<close>
  \<^verbatim>\<open>if (!outFile.endsWith('.csv')) outFile += '.csv';\<close>
\<close>

definition outFile :: "string \<Rightarrow> string \<Rightarrow> string" where
  "outFile sep out =
     (let outFile1 = (if endsWith out sep then out @ ''commits.csv'' else out);
          outFile2 = (if \<not> endsWith outFile1 ''.csv'' then outFile1 @ ''.csv'' else outFile1)
      in outFile2)"

section \<open>The statistics pass\<close>

record commitTimeDifference =
  difference :: "int number"
  firstCommit :: "commit option"
  secondCommit :: "commit option"

text \<open>The values of the \<open>authors\<close> map (its field \<open>changes\<close> is named \<open>authorChanges\<close> here).\<close>

record authorInfo =
  commitCount :: nat
  authorChanges :: enat

text \<open>
  The variables the \<open>forEach\<close> callback updates. A \<open>Map\<close> keeps its keys in insertion order,
  so \<open>authors\<close> is an association list; \<open>null\<close> commit references are \<open>None\<close>.
\<close>

record stats =
  authors :: "(string \<times> authorInfo) list"
  meaningfulMessages :: nat
  uniqueMessages :: "string set"
  timeDifferences :: "int number list"
  maxDifference :: commitTimeDifference
  minDifference :: commitTimeDifference

definition initialStats :: stats where
  "initialStats =
     \<lparr> authors = [],
       meaningfulMessages = 0,
       uniqueMessages = {},
       timeDifferences = [],
       maxDifference =
         \<lparr> difference = Num MIN_SAFE_INTEGER, firstCommit = None, secondCommit = None \<rparr>,
       minDifference =
         \<lparr> difference = Num MAX_SAFE_INTEGER, firstCommit = None, secondCommit = None \<rparr> \<rparr>"

text \<open>
  The three parts of the callback in source order: the author's entry is replaced or created
  (an entry found is an object, hence truthy); the message is counted when its length is
  over the threshold and is added to the set; and, when a next commit exists, the difference
  of the two time values is pushed and compared with the two extremes.
\<close>

definition updateAuthor :: "commit \<Rightarrow> stats \<Rightarrow> stats" where
  "updateAuthor c s =
     (case map_of (authors s) (author c) of
        Some info \<Rightarrow>
          s\<lparr> authors := AList.update (author c)
                \<lparr> commitCount = commitCount info + 1,
                  authorChanges = plus_count (authorChanges info) (changes c) \<rparr> (authors s) \<rparr>
      | None \<Rightarrow>
          s\<lparr> authors := AList.update (author c)
                \<lparr> commitCount = 1, authorChanges = changes c \<rparr> (authors s) \<rparr>)"

definition updateMessages :: "int \<Rightarrow> commit \<Rightarrow> stats \<Rightarrow> stats" where
  "updateMessages threshold c s =
     (let s1 = (if int (length (message c)) > threshold
                then s\<lparr> meaningfulMessages := meaningfulMessages s + 1 \<rparr> else s)
      in s1\<lparr> uniqueMessages := insert (message c) (uniqueMessages s1) \<rparr>)"

definition updateDifferences :: "commit \<Rightarrow> commit \<Rightarrow> stats \<Rightarrow> stats" where
  "updateDifferences c nextCommit s =
     (let d = minus_number (timestamp c) (timestamp nextCommit);
          s1 = s\<lparr> timeDifferences := timeDifferences s @ [d] \<rparr>;
          s2 = (if gt d (difference (maxDifference s1))
                then s1\<lparr> maxDifference :=
                       \<lparr> difference = d, firstCommit = Some c,
                         secondCommit = Some nextCommit \<rparr> \<rparr>
                else s1);
          s3 = (if lt d (difference (minDifference s2))
                then s2\<lparr> minDifference :=
                       \<lparr> difference = d, firstCommit = Some c,
                         secondCommit = Some nextCommit \<rparr> \<rparr>
                else s2)
      in s3)"

text \<open>
  One call of the callback: \<open>c\<close> is \<open>commit\<close>, \<open>next\<close> is \<open>commits[idx + 1]\<close>, which is
  \<open>undefined\<close> (here \<open>None\<close>) for the last commit.
\<close>

definition forEachBody :: "int \<Rightarrow> commit \<Rightarrow> commit option \<Rightarrow> stats \<Rightarrow> stats" where
  "forEachBody threshold c next s =
     (let s1 = updateMessages threshold c (updateAuthor c s)
      in case next of None \<Rightarrow> s1 | Some nextCommit \<Rightarrow> updateDifferences c nextCommit s1)"

text \<open>\<open>commits.forEach\<close>, running the callback on every commit from first to last.\<close>

fun forEachCommit :: "int \<Rightarrow> commit list \<Rightarrow> stats \<Rightarrow> stats" where
  "forEachCommit threshold [] s = s"
| "forEachCommit threshold (c # rest) s =
     forEachCommit threshold rest
       (forEachBody threshold c (case rest of [] \<Rightarrow> None | n # _ \<Rightarrow> Some n) s)"

definition scan :: "int \<Rightarrow> commit list \<Rightarrow> stats" where
  "scan threshold cs = forEachCommit threshold cs initialStats"


subsection \<open>Sorting the differences and the median\<close>

fun showNat :: "nat \<Rightarrow> string" where
  "showNat n =
     (if n < 10 then [char_of (48 + n)] else showNat (n div 10) @ [char_of (48 + n mod 10)])"

text \<open>
  \<open>ToString\<close> of a number: decimal digits (valid for integers below \<open>10^21\<close> in magnitude,
  which covers every difference of two time values) or \<open>NaN\<close>.
\<close>

declare showNat.simps [simp del]

definition toString :: "int number \<Rightarrow> string" where
  "toString x =
     (case x of
        NaN \<Rightarrow> ''NaN''
      | Num i \<Rightarrow> (if i < 0 then CHR ''-'' # showNat (nat (- i)) else showNat (nat i)))"

text \<open>
  \<open>timeDifferences.sort()\<close> is called without a comparator, so the elements are ordered by
  comparing their string conversions code unit by code unit. The sort is stable.
\<close>

definition sortDefault :: "int number list \<Rightarrow> int number list" where
  "sortDefault xs = sort_key toString xs"

text \<open>\<open>(a + b) / 2\<close>: the sum is rounded, the halving is exact.\<close>

fun half_sum :: "int number \<Rightarrow> int number \<Rightarrow> real number" where
  "half_sum (Num a) (Num b) = Num (real_of_int (toDouble (a + b)) / 2)"
| "half_sum _ _ = NaN"

fun to_real :: "int number \<Rightarrow> real number" where
  "to_real (Num a) = Num (real_of_int a)"
| "to_real NaN = NaN"

text \<open>
  \<open>midpoint\<close> and \<open>medianCommitTime\<close>, on the array \<open>td\<close> as it is after the sort. Both
  indices are in range when the array is non-empty; on the empty array the two reads are
  \<open>undefined\<close> and the result is \<open>NaN\<close>.
\<close>

definition midpoint :: "'a list \<Rightarrow> nat" where
  "midpoint td = nat \<lceil>real (length td) / 2\<rceil>"

definition medianOfSorted :: "int number list \<Rightarrow> real number" where
  "medianOfSorted td =
     (if td = [] then NaN
      else if length td mod 2 = 0
        then half_sum (td ! midpoint td) (td ! (midpoint td - 1))
        else to_real (td ! (midpoint td - 1)))"

definition medianCommitTime :: "int number list \<Rightarrow> real number" where
  "medianCommitTime td = medianOfSorted (sortDefault td)"

text \<open>
  The median as the specification words it: the same selection, after sorting the
  differences ascending by numeric value (\<open>NaN\<close> is not ordered and is left out of scope: the
  comparison is on lists of valid differences).
\<close>

definition spec_median :: "int list \<Rightarrow> real number" where
  "spec_median ds = medianOfSorted (map Num (sort ds))"

section \<open>The program's step order\<close>

record argv =
  verbose :: bool
  concise :: bool
  threshold :: int
  csv :: bool
  out :: string

text \<open>
  What the run obtains from outside: the result of \<open>execSync\<close> (\<open>None\<close> when it throws), the
  platform's date parser and path separator, and whether \<open>writeFileSync\<close> succeeds on a path.
\<close>

record environment =
  gitLog :: "string option"
  newDate :: "string \<Rightarrow> int number"
  pathSep :: string
  canWrite :: "string \<Rightarrow> bool"

datatype event = ExecGitLog | ParseCommits | CheckOptions | GenerateCsv | CheckCommitCount
  | ScanCommits

datatype outcome =
    LogUnavailable
  | Uncaught error
  | ConflictingOptions
  | OutputWriteFailure string
  | CsvSaved string
  | InsufficientHistory
  | Scanned stats

text \<open>
  The top-level statements of the script in order, with the steps performed and how the run
  ends. In the CSV branch \<open>toISOString\<close> throws a RangeError on an invalid date while the
  buffer is built, before the file is written. The text of the CSV rows and of the report is
  not modelled.
\<close>

definition run :: "argv \<Rightarrow> environment \<Rightarrow> event list \<times> outcome" where
  "run a env =
     (case gitLog env of
        None \<Rightarrow> ([ExecGitLog], LogUnavailable)
      | Some rawLog \<Rightarrow>
          (case commits (newDate env) rawLog of
             Inl e \<Rightarrow> ([ExecGitLog, ParseCommits], Uncaught e)
           | Inr cs \<Rightarrow>
               if verbose a \<and> concise a
               then ([ExecGitLog, ParseCommits, CheckOptions], ConflictingOptions)
               else if csv a then
                 ([ExecGitLog, ParseCommits, CheckOptions, GenerateCsv],
                  if list_ex (\<lambda>c. timestamp c = NaN) cs then Uncaught RangeError
                  else if canWrite env (outFile (pathSep env) (out a))
                    then CsvSaved (outFile (pathSep env) (out a))
                    else OutputWriteFailure (outFile (pathSep env) (out a)))
               else if length cs < 2 then
                 ([ExecGitLog, ParseCommits, CheckOptions, CheckCommitCount],
                  InsufficientHistory)
               else
                 ([ExecGitLog, ParseCommits, CheckOptions, CheckCommitCount, ScanCommits],
                  Scanned (scan (threshold a) cs))))"

section \<open>Notions used to state the properties\<close>

text \<open>The signed difference of the adjacent pair at positions \<open>i\<close> and \<open>i + 1\<close>.\<close>

definition adjacentDifference :: "commit list \<Rightarrow> nat \<Rightarrow> int number" where
  "adjacentDifference cs i = minus_number (timestamp (cs ! i)) (timestamp (cs ! Suc i))"

text \<open>
  The comparisons of the pass as a fold over the adjacent pairs: \<open>stepBy gt\<close> is the update
  of \<open>maxDifference\<close>, \<open>stepBy lt\<close> that of \<open>minDifference\<close>.
\<close>

definition pairDifference :: "commit \<times> commit \<Rightarrow> int number" where
  "pairDifference p = minus_number (timestamp (fst p)) (timestamp (snd p))"

definition pairRecord :: "commit \<times> commit \<Rightarrow> commitTimeDifference" where
  "pairRecord p =
     \<lparr> difference = pairDifference p, firstCommit = Some (fst p), secondCommit = Some (snd p) \<rparr>"

definition stepBy ::
  "(int number \<Rightarrow> int number \<Rightarrow> bool) \<Rightarrow> commitTimeDifference \<Rightarrow> commit \<times> commit
     \<Rightarrow> commitTimeDifference" where
  "stepBy R m p = (if R (pairDifference p) (difference m) then pairRecord p else m)"

text \<open>Whether \<open>sep\<close> occurs somewhere in a string.\<close>

fun occurs :: "string \<Rightarrow> string \<Rightarrow> bool" where
  "occurs sep [] = (sep = [])"
| "occurs sep (c # cs) = (prefix sep (c # cs) \<or> occurs sep cs)"

text \<open>
  A synthetic log: every block preceded by the delimiter, as the log format
  \<open>.%n.%H%n%ae%n%s%n%ci\<close> prints it. A block is well formed when it cannot be mistaken for
  a delimiter (neither inside it nor together with the beginning of the delimiter that
  follows it) and has the four header lines and at least one line after them.
\<close>

definition logOf :: "string list \<Rightarrow> string" where
  "logOf blocks = concat (map (\<lambda>b. delimiter @ b) blocks)"

definition wellFormedBlock :: "string \<Rightarrow> bool" where
  "wellFormedBlock b \<longleftrightarrow>
     \<not> occurs delimiter (b @ butlast delimiter) \<and> 5 \<le> length (split [newline] (trim b))"

text \<open>
  The diffstat summary line as the version-control tool prints it for \<open>f\<close> files; the
  insertion and the deletion clause may each be absent.
\<close>

definition plural :: "nat \<Rightarrow> string" where
  "plural n = (if n = 1 then [] else ''s'')"

definition diffstatLine :: "nat \<Rightarrow> nat option \<Rightarrow> nat option \<Rightarrow> string" where
  "diffstatLine f ins del =
     '' '' @ showNat f @ '' file'' @ plural f @ '' changed''
     @ (case ins of None \<Rightarrow> [] | Some i \<Rightarrow> '', '' @ showNat i @ '' insertion'' @ plural i @ ''(+)'')
     @ (case del of None \<Rightarrow> [] | Some d \<Rightarrow> '', '' @ showNat d @ '' deletion'' @ plural d @ ''(-)'')"

section \<open>Rounding\<close>

lemma ulpOf_small: "m < 2 ^ 53 \<Longrightarrow> ulpOf m = 1"
  by (subst ulpOf.simps) simp

lemma ulpOf_pos: "0 < ulpOf m"
proof (induction m rule: ulpOf.induct)
  case (1 m)
  show ?case
  proof (cases "m < 2 ^ 53")
    case True
    then show ?thesis by (simp add: ulpOf_small)
  next
    case False
    with 1 have "0 < ulpOf (m div 2)" by simp
    with False show ?thesis by (subst ulpOf.simps) simp
  qed
qed

lemma ulpOf_le: "0 < m \<Longrightarrow> ulpOf m \<le> m"
proof (induction m rule: ulpOf.induct)
  case (1 m)
  show ?case
  proof (cases "m < 2 ^ 53")
    case True
    with "1.prems" show ?thesis by (simp add: ulpOf_small)
  next
    case False
    then have "0 < m div 2" by simp
    with "1.IH" False have "ulpOf (m div 2) \<le> m div 2" by simp
    then have "2 * ulpOf (m div 2) \<le> m" by simp
    with False show ?thesis by (subst ulpOf.simps) simp
  qed
qed

lemma roundToDouble_exact: "m \<le> 2 ^ 53 \<Longrightarrow> roundToDouble m = m"
proof (cases "m < 2 ^ 53")
  case True
  then show ?thesis by (simp add: roundToDouble_def ulpOf_small)
next
  case False
  assume "m \<le> 2 ^ 53"
  with False have m: "m = 2 ^ 53" by simp
  have "ulpOf (2 ^ 53) = 2"
    by (subst ulpOf.simps) (simp add: ulpOf_small)
  then show ?thesis unfolding m by (simp add: roundToDouble_def)
qed

lemma roundToDouble_pos: "0 < m \<Longrightarrow> 0 < roundToDouble m"
proof -
  assume m: "0 < m"
  have u: "0 < ulpOf m" by (rule ulpOf_pos)
  from m have "ulpOf m \<le> m" by (rule ulpOf_le)
  with u have "0 < m div ulpOf m" by (simp add: div_greater_zero_iff)
  with u show ?thesis by (simp add: roundToDouble_def Let_def)
qed

lemma toDouble_exact: "\<bar>x\<bar> \<le> 2 ^ 53 \<Longrightarrow> toDouble x = x"
proof -
  assume "\<bar>x\<bar> \<le> 2 ^ 53"
  then have "nat \<bar>x\<bar> \<le> 2 ^ 53" by simp
  then have "roundToDouble (nat \<bar>x\<bar>) = nat \<bar>x\<bar>" by (rule roundToDouble_exact)
  then show ?thesis by (simp add: toDouble_def mult_sgn_abs)
qed

lemma sgn_toDouble: "sgn (toDouble x) = sgn x"
proof (cases "x = 0")
  case True
  then show ?thesis by (simp add: toDouble_def)
next
  case False
  then have "0 < roundToDouble (nat \<bar>x\<bar>)" by (intro roundToDouble_pos) simp
  then show ?thesis by (simp add: toDouble_def sgn_mult)
qed

lemma toCount_exact: "n \<le> 2 ^ 53 \<Longrightarrow> toCount n = enat n"
proof -
  assume n: "n \<le> 2 ^ 53"
  have "(2::nat) ^ 53 < 2 ^ 1024" by (rule power_strict_increasing) simp_all
  with n have "n < 2 ^ 1024" by simp
  with n show ?thesis by (simp add: toCount_def roundToDouble_exact)
qed

lemma plus_count_enat: "plus_count (enat a) (enat b) = toCount (a + b)"
  by (simp add: plus_count_def)

lemma plus_count_zero:
  "plus_count 0 (enat b) = toCount b" "plus_count (enat a) 0 = toCount a" "plus_count 0 0 = 0"
  by (simp_all add: plus_count_def zero_enat_def toCount_exact)

lemma plus_count_exact:
  "a + b \<le> 2 ^ 53 \<Longrightarrow> plus_count (enat a) (enat b) = enat (a + b)"
  by (simp add: plus_count_enat toCount_exact)

text \<open>
  Two instances of the rounding: \<open>2^53 + 1\<close> lies halfway between two doubles and goes to
  the even one, and the width of the range of dates is a double.
\<close>

lemma roundToDouble_examples:
  "roundToDouble 9007199254740993 = 9007199254740992"
  "roundToDouble 9007199254740995 = 9007199254740996"
  "toDouble 9007199254740995 = 9007199254740996"
  "toDouble 9007199254740996 = 9007199254740996"
  "toDouble 17280000000000000 = 17280000000000000"
  by (simp_all add: roundToDouble_def toDouble_def ulpOf.simps)

section \<open>The median of the time differences\<close>

lemma median_parity_example:
  "medianCommitTime [Num 10, Num 20, Num 30, Num 40] = Num 25"
  by (simp add: medianCommitTime_def medianOfSorted_def sortDefault_def toString_def
      midpoint_def less_char_def less_eq_char_def showNat.simps toDouble_exact)

text \<open>
  Claim C1. The median should come from the differences sorted ascending by numeric value.
  The program sorts them with the default ordering, which compares the decimal strings: for
  the three differences 9000, 10000 and 100000 ms (four commits 9 s, 10 s and 100 s apart)
  the sorted array is 10000, 100000, 9000 and the reported median is 100000, where the
  numeric median is 10000.
\<close>

theorem median_uses_string_order:
  "sortDefault [Num 9000, Num 10000, Num 100000] = [Num 10000, Num 100000, Num 9000]
   \<and> medianCommitTime [Num 9000, Num 10000, Num 100000] = Num 100000
   \<and> spec_median [9000, 10000, 100000] = Num 10000"
  by (simp add: medianCommitTime_def medianOfSorted_def sortDefault_def toString_def
      midpoint_def less_char_def less_eq_char_def spec_median_def showNat.simps)

section \<open>The total of changes\<close>






section \<open>Message metrics\<close>

lemma forEachBody_messages:
  "meaningfulMessages (forEachBody t c nx s) =
     meaningfulMessages s + (if int (length (message c)) > t then 1 else 0)"
  "uniqueMessages (forEachBody t c nx s) = insert (message c) (uniqueMessages s)"
  by (auto simp add: forEachBody_def updateMessages_def updateAuthor_def updateDifferences_def
      Let_def split: option.splits)

lemma forEachCommit_messages:
  "meaningfulMessages (forEachCommit t cs s) =
     meaningfulMessages s + length (filter (\<lambda>c. int (length (message c)) > t) cs)
   \<and> uniqueMessages (forEachCommit t cs s) = uniqueMessages s \<union> set (map message cs)"
  by (induction cs arbitrary: s) (auto simp add: forEachBody_messages)

lemma scan_messages:
  "meaningfulMessages (scan t cs) = length (filter (\<lambda>c. int (length (message c)) > t) cs)"
  "uniqueMessages (scan t cs) = set (map message cs)"
  by (simp_all add: scan_def forEachCommit_messages initialStats_def)

text \<open>
  Claim C7. For every commit sequence and threshold, \<open>meaningfulMessages\<close> is the number of
  commits whose message is strictly longer than the threshold, and \<open>uniqueMessages\<close> is the set
  of the message strings, so its size is the number of distinct messages under plain string
  equality. With threshold 10, three messages of lengths 5, 11 and 10 count as one.
\<close>

theorem message_metrics:
  "meaningfulMessages (scan t cs) = length (filter (\<lambda>c. int (length (message c)) > t) cs)
   \<and> uniqueMessages (scan t cs) = set (map message cs)
   \<and> card (uniqueMessages (scan t cs)) = length (remdups (map message cs))
   \<and> (length (message a) = 5 \<and> length (message b) = 11 \<and> length (message c) = 10
        \<longrightarrow> meaningfulMessages (scan 10 [a, b, c]) = 1)"
proof (intro conjI impI)
  show "meaningfulMessages (scan t cs) = length (filter (\<lambda>c. int (length (message c)) > t) cs)"
    by (rule scan_messages)
  show unique: "uniqueMessages (scan t cs) = set (map message cs)"
    by (rule scan_messages)
  show "card (uniqueMessages (scan t cs)) = length (remdups (map message cs))"
    unfolding unique by (simp add: length_remdups_card_conv)
next
  assume "length (message a) = 5 \<and> length (message b) = 11 \<and> length (message c) = 10"
  then show "meaningfulMessages (scan 10 [a, b, c]) = 1"
    by (simp add: scan_messages)
qed

theorem message_metrics_witness:
  "meaningfulMessages (scan 10
      [\<lparr>hash = ''a1'', author = ''dev'', message = ''typos'', timestamp = Num 3000, changes = 1\<rparr>,
       \<lparr>hash = ''b2'', author = ''dev'', message = ''Fix the bug'', timestamp = Num 2000, changes = 2\<rparr>,
       \<lparr>hash = ''c3'', author = ''dev'', message = ''fix the bu'', timestamp = Num 1000, changes = 3\<rparr>])
     = 1
   \<and> card (uniqueMessages (scan 10
      [\<lparr>hash = ''a1'', author = ''dev'', message = ''fix'', timestamp = Num 3000, changes = 1\<rparr>,
       \<lparr>hash = ''b2'', author = ''dev'', message = ''fix'', timestamp = Num 2000, changes = 2\<rparr>,
       \<lparr>hash = ''c3'', author = ''dev'', message = ''Fix'', timestamp = Num 1000, changes = 3\<rparr>,
       \<lparr>hash = ''d4'', author = ''dev'', message = ''fix '', timestamp = Num 0, changes = 3\<rparr>]))
     = 3"
  using
    message_metrics [of 10
      "[\<lparr>hash = ''a1'', author = ''dev'', message = ''fix'', timestamp = Num 3000, changes = 1\<rparr>,
        \<lparr>hash = ''b2'', author = ''dev'', message = ''fix'', timestamp = Num 2000, changes = 2\<rparr>,
        \<lparr>hash = ''c3'', author = ''dev'', message = ''Fix'', timestamp = Num 1000, changes = 3\<rparr>,
        \<lparr>hash = ''d4'', author = ''dev'', message = ''fix '', timestamp = Num 0, changes = 3\<rparr>]"
      "\<lparr>hash = ''a1'', author = ''dev'', message = ''typos'', timestamp = Num 3000, changes = 1\<rparr>"
      "\<lparr>hash = ''b2'', author = ''dev'', message = ''Fix the bug'', timestamp = Num 2000, changes = 2\<rparr>"
      "\<lparr>hash = ''c3'', author = ''dev'', message = ''fix the bu'', timestamp = Num 1000, changes = 3\<rparr>"]
  by simp

section \<open>The CSV file name\<close>

lemma suffix_csv_commits: "suffix ''.csv'' (p @ ''commits.csv'')"
proof -
  have "p @ ''commits.csv'' = (p @ ''commits'') @ ''.csv''" by simp
  then show ?thesis unfolding suffix_def by blast
qed

lemma suffix_csv_self: "suffix ''.csv'' (p @ ''.csv'')"
  unfolding suffix_def by blast

lemma outFile_ends: "endsWith (outFile sep p) ''.csv''"
  by (simp add: outFile_def endsWith_def Let_def suffix_csv_commits suffix_csv_self)

lemma outFile_chain:
  "outFile sep p =
     (if endsWith p sep then p @ ''commits.csv''
      else if \<not> endsWith p ''.csv'' then p @ ''.csv'' else p)"
  by (simp add: outFile_def endsWith_def Let_def suffix_csv_commits)

lemma csv_not_sep:
  assumes "sep = ''/'' \<or> sep = [CHR 0x5C]" "endsWith p ''.csv''"
  shows "\<not> endsWith p sep"
  using assms by (auto simp add: endsWith_def suffix_def)

text \<open>What the correction does to a requested path.\<close>

lemma outFile_always_csv:
  assumes "sep = ''/'' \<or> sep = [CHR 0x5C]"
  shows "endsWith (outFile sep p) ''.csv''
     \<and> (endsWith p sep \<longrightarrow> outFile sep p = p @ ''commits.csv'')
     \<and> (\<not> endsWith p sep \<and> \<not> endsWith p ''.csv'' \<longrightarrow> outFile sep p = p @ ''.csv'')
     \<and> (endsWith p ''.csv'' \<longrightarrow> outFile sep p = p)"
proof -
  have ends: "endsWith (outFile sep p) ''.csv''"
    by (rule outFile_ends)
  have "endsWith p ''.csv'' \<Longrightarrow> \<not> endsWith p sep"
    using assms by (rule csv_not_sep)
  then have cases: "(endsWith p sep \<longrightarrow> outFile sep p = p @ ''commits.csv'')
     \<and> (\<not> endsWith p sep \<and> \<not> endsWith p ''.csv'' \<longrightarrow> outFile sep p = p @ ''.csv'')
     \<and> (endsWith p ''.csv'' \<longrightarrow> outFile sep p = p)"
    by (auto simp add: outFile_chain)
  from ends cases show ?thesis by (rule conjI)
qed

lemma run_csv_branch:
  assumes "csv a" "\<not> (verbose a \<and> concise a)" "gitLog env = Some rawLog"
    "commits (newDate env) rawLog = Inr cs" "\<not> list_ex (\<lambda>c. timestamp c = NaN) cs"
  shows "snd (run a env) =
           (if canWrite env (outFile (pathSep env) (out a))
            then CsvSaved (outFile (pathSep env) (out a))
            else OutputWriteFailure (outFile (pathSep env) (out a)))"
  using assms by (auto simp add: run_def)

lemma run_written_path:
  assumes "snd (run a env) = CsvSaved p \<or> snd (run a env) = OutputWriteFailure p"
  shows "p = outFile (pathSep env) (out a) \<and> csv a \<and> GenerateCsv \<in> set (fst (run a env))"
  using assms by (auto simp add: run_def split: option.splits sum.splits if_splits)

text \<open>
  Claim C10. Whenever the run reaches the write of the CSV file, whether the write succeeds
  or fails, the path given to it is the corrected file name, and with the path separator of
  either platform (slash or backslash) that name always ends in \<open>.csv\<close>: a requested path
  ending with the separator gets \<open>commits.csv\<close> appended, any other path not ending in \<open>.csv\<close>
  gets \<open>.csv\<close> appended, and a path ending in \<open>.csv\<close> is used as it is. The write is reached on
  every CSV request without conflicting modes whose log is retrieved and parsed and holds no
  invalid date.
\<close>

theorem csv_written_path_ends_in_csv:
  assumes "pathSep env = ''/'' \<or> pathSep env = [CHR 0x5C]"
  shows "(snd (run a env) = CsvSaved p \<or> snd (run a env) = OutputWriteFailure p \<longrightarrow>
            csv a \<and> p = outFile (pathSep env) (out a) \<and> endsWith p ''.csv''
            \<and> (endsWith (out a) (pathSep env) \<longrightarrow> p = out a @ ''commits.csv'')
            \<and> (\<not> endsWith (out a) (pathSep env) \<and> \<not> endsWith (out a) ''.csv''
                  \<longrightarrow> p = out a @ ''.csv'')
            \<and> (endsWith (out a) ''.csv'' \<longrightarrow> p = out a))
     \<and> (csv a \<and> \<not> (verbose a \<and> concise a) \<and> gitLog env = Some rawLog
          \<and> commits (newDate env) rawLog = Inr cs \<and> \<not> list_ex (\<lambda>c. timestamp c = NaN) cs \<longrightarrow>
            snd (run a env) =
              (if canWrite env (outFile (pathSep env) (out a))
               then CsvSaved (outFile (pathSep env) (out a))
               else OutputWriteFailure (outFile (pathSep env) (out a))))"
proof (intro conjI impI)
  assume written: "snd (run a env) = CsvSaved p \<or> snd (run a env) = OutputWriteFailure p"
  then have p: "p = outFile (pathSep env) (out a)" and "csv a"
    using run_written_path [of a env p] by simp_all
  show "csv a" by fact
  show "p = outFile (pathSep env) (out a)" by fact
  note name = outFile_always_csv [OF assms, of "out a"]
  from name show "endsWith p ''.csv''"
    unfolding p by (rule conjunct1)
  {
    assume "endsWith (out a) (pathSep env)"
    with name show "p = out a @ ''commits.csv''"
      unfolding p by blast
  }
  {
    assume "\<not> endsWith (out a) (pathSep env) \<and> \<not> endsWith (out a) ''.csv''"
    with name show "p = out a @ ''.csv''"
      unfolding p by blast
  }
  {
    assume "endsWith (out a) ''.csv''"
    with name show "p = out a"
      unfolding p by blast
  }
next
  assume "csv a \<and> \<not> (verbose a \<and> concise a) \<and> gitLog env = Some rawLog
          \<and> commits (newDate env) rawLog = Inr cs \<and> \<not> list_ex (\<lambda>c. timestamp c = NaN) cs"
  then show "snd (run a env) =
              (if canWrite env (outFile (pathSep env) (out a))
               then CsvSaved (outFile (pathSep env) (out a))
               else OutputWriteFailure (outFile (pathSep env) (out a)))"
    using run_csv_branch [of a env rawLog cs] by blast
qed

theorem csv_written_path_ends_in_csv_witness:
  "snd (run \<lparr>verbose = False, concise = False, threshold = 10, csv = True, out = ''reports/''\<rparr>
         \<lparr>gitLog = Some [], newDate = (\<lambda>_. NaN), pathSep = ''/'', canWrite = (\<lambda>_. True)\<rparr>)
     = CsvSaved ''reports/commits.csv''
   \<and> snd (run \<lparr>verbose = False, concise = False, threshold = 10, csv = True, out = ''reports/log''\<rparr>
         \<lparr>gitLog = Some [], newDate = (\<lambda>_. NaN), pathSep = ''/'', canWrite = (\<lambda>_. False)\<rparr>)
     = OutputWriteFailure ''reports/log.csv''
   \<and> endsWith ''reports/log.csv'' ''.csv''"
proof -
  let ?a1 = "\<lparr>verbose = False, concise = False, threshold = 10, csv = True, out = ''reports/''\<rparr>"
  let ?e1 = "\<lparr>gitLog = Some [], newDate = (\<lambda>_. NaN), pathSep = ''/'', canWrite = (\<lambda>_. True)\<rparr>"
  let ?a2 = "\<lparr>verbose = False, concise = False, threshold = 10, csv = True, out = ''reports/log''\<rparr>"
  let ?e2 = "\<lparr>gitLog = Some [], newDate = (\<lambda>_. NaN), pathSep = ''/'', canWrite = (\<lambda>_. False)\<rparr>"
  have parsed: "commits (\<lambda>_. NaN) [] = Inr []"
    by (simp add: commits_def commitStrings_def delimiter_def)
  have sep1: "pathSep ?e1 = ''/'' \<or> pathSep ?e1 = [CHR 0x5C]"
    and sep2: "pathSep ?e2 = ''/'' \<or> pathSep ?e2 = [CHR 0x5C]"
    by simp_all
  note first = csv_written_path_ends_in_csv [OF sep1, of ?a1 "outFile ''/'' ''reports/''" "[]" "[]"]
  note second = csv_written_path_ends_in_csv [OF sep2, of ?a2 "outFile ''/'' ''reports/log''" "[]" "[]"]
  from first parsed have saved: "snd (run ?a1 ?e1) = CsvSaved (outFile ''/'' ''reports/'')"
    by simp
  with first have "outFile ''/'' ''reports/'' = ''reports/'' @ ''commits.csv''"
    by (simp add: endsWith_def suffix_def)
  with saved have one: "snd (run ?a1 ?e1) = CsvSaved ''reports/commits.csv''"
    by simp
  from second parsed have failed: "snd (run ?a2 ?e2) = OutputWriteFailure (outFile ''/'' ''reports/log'')"
    by simp
  with second have name: "outFile ''/'' ''reports/log'' = ''reports/log'' @ ''.csv''"
      and ends: "endsWith (outFile ''/'' ''reports/log'') ''.csv''"
    by (simp_all add: endsWith_def suffix_def)
  from failed name have two: "snd (run ?a2 ?e2) = OutputWriteFailure ''reports/log.csv''"
    by simp
  from ends name have "endsWith ''reports/log.csv'' ''.csv''"
    by simp
  with one two show ?thesis by blast
qed

section \<open>Adjacent time differences and their extremes\<close>

lemma updateDifferences_fields:
  "timeDifferences (updateDifferences c n s) = timeDifferences s @ [pairDifference (c, n)]"
  "maxDifference (updateDifferences c n s) = stepBy gt (maxDifference s) (c, n)"
  "minDifference (updateDifferences c n s) = stepBy lt (minDifference s) (c, n)"
  by (simp_all add: updateDifferences_def stepBy_def pairRecord_def pairDifference_def Let_def)

lemma updateAuthor_fields:
  "timeDifferences (updateAuthor c s) = timeDifferences s"
  "maxDifference (updateAuthor c s) = maxDifference s"
  "minDifference (updateAuthor c s) = minDifference s"
  by (simp_all add: updateAuthor_def split: option.splits)

lemma updateMessages_fields:
  "timeDifferences (updateMessages t c s) = timeDifferences s"
  "maxDifference (updateMessages t c s) = maxDifference s"
  "minDifference (updateMessages t c s) = minDifference s"
  by (simp_all add: updateMessages_def Let_def)

lemma forEachBody_fields:
  "timeDifferences (forEachBody t c None s) = timeDifferences s"
  "maxDifference (forEachBody t c None s) = maxDifference s"
  "minDifference (forEachBody t c None s) = minDifference s"
  "timeDifferences (forEachBody t c (Some n) s) = timeDifferences s @ [pairDifference (c, n)]"
  "maxDifference (forEachBody t c (Some n) s) = stepBy gt (maxDifference s) (c, n)"
  "minDifference (forEachBody t c (Some n) s) = stepBy lt (minDifference s) (c, n)"
  by (simp_all add: forEachBody_def Let_def updateDifferences_fields updateAuthor_fields
      updateMessages_fields)

lemma forEachCommit_fold:
  "timeDifferences (forEachCommit t cs s) = timeDifferences s @ map pairDifference (zip cs (tl cs))
   \<and> maxDifference (forEachCommit t cs s) = foldl (stepBy gt) (maxDifference s) (zip cs (tl cs))
   \<and> minDifference (forEachCommit t cs s) = foldl (stepBy lt) (minDifference s) (zip cs (tl cs))"
proof (induction cs arbitrary: s)
  case Nil
  show ?case by simp
next
  case (Cons c rest)
  show ?case
  proof (cases rest)
    case Nil
    then show ?thesis by (simp add: forEachBody_fields)
  next
    case (Cons n r)
    with Cons.IH [of "forEachBody t c (Some n) s"] show ?thesis
      by (simp add: forEachBody_fields)
  qed
qed

lemma foldl_stepBy:
  assumes "transp R" and "irreflp R"
  shows "(foldl (stepBy R) m ps = m
            \<and> (\<forall>j<length ps. \<not> R (pairDifference (ps ! j)) (difference m)))
       \<or> (\<exists>i<length ps. foldl (stepBy R) m ps = pairRecord (ps ! i)
            \<and> R (pairDifference (ps ! i)) (difference m)
            \<and> (\<forall>j<length ps. \<not> R (pairDifference (ps ! j)) (pairDifference (ps ! i)))
            \<and> (\<forall>j<i. pairDifference (ps ! j) \<noteq> pairDifference (ps ! i)))"
proof (induction ps rule: rev_induct)
  case Nil
  show ?case by simp
next
  case (snoc p ps)
  have tr: "\<And>a b c. R a b \<Longrightarrow> R b c \<Longrightarrow> R a c"
    using assms(1) by (rule transpD)
  have irr: "\<And>a. \<not> R a a"
    using assms(2) by (rule irreflpD)
  let ?d = "\<lambda>xs j. pairDifference (xs ! j)"
  from snoc show ?case
  proof (elim disjE conjE exE)
    assume same: "foldl (stepBy R) m ps = m"
      and none: "\<forall>j<length ps. \<not> R (?d ps j) (difference m)"
    show ?thesis
    proof (cases "R (pairDifference p) (difference m)")
      case False
      with same none have "foldl (stepBy R) m (ps @ [p]) = m
          \<and> (\<forall>j<length (ps @ [p]). \<not> R (?d (ps @ [p]) j) (difference m))"
        by (auto simp add: stepBy_def nth_append less_Suc_eq)
      then show ?thesis by blast
    next
      case True
      have "foldl (stepBy R) m (ps @ [p]) = pairRecord ((ps @ [p]) ! length ps)"
        using same True by (simp add: stepBy_def)
      moreover have "R (?d (ps @ [p]) (length ps)) (difference m)"
        using True by simp
      moreover have "\<forall>j<length (ps @ [p]). \<not> R (?d (ps @ [p]) j) (?d (ps @ [p]) (length ps))"
        using none True tr irr by (auto simp add: nth_append less_Suc_eq)
      moreover have "\<forall>j<length ps. ?d (ps @ [p]) j \<noteq> ?d (ps @ [p]) (length ps)"
        using none True by (auto simp add: nth_append)
      ultimately show ?thesis
        by (intro disjI2 exI [of _ "length ps"]) simp
    qed
  next
    fix i
    assume i: "i < length ps"
      and at: "foldl (stepBy R) m ps = pairRecord (ps ! i)"
      and above: "R (?d ps i) (difference m)"
      and best: "\<forall>j<length ps. \<not> R (?d ps j) (?d ps i)"
      and first: "\<forall>j<i. ?d ps j \<noteq> ?d ps i"
    have diff_at: "difference (pairRecord (ps ! i)) = ?d ps i"
      by (simp add: pairRecord_def)
    show ?thesis
    proof (cases "R (pairDifference p) (?d ps i)")
      case False
      have "foldl (stepBy R) m (ps @ [p]) = pairRecord ((ps @ [p]) ! i)"
        using at False i by (simp add: stepBy_def diff_at nth_append)
      moreover have "R (?d (ps @ [p]) i) (difference m)"
        using above i by (simp add: nth_append)
      moreover have "\<forall>j<length (ps @ [p]). \<not> R (?d (ps @ [p]) j) (?d (ps @ [p]) i)"
        using best False i by (auto simp add: nth_append less_Suc_eq)
      moreover have "\<forall>j<i. ?d (ps @ [p]) j \<noteq> ?d (ps @ [p]) i"
        using first i by (auto simp add: nth_append)
      ultimately show ?thesis
        using i by (intro disjI2 exI [of _ i]) simp
    next
      case True
      have "foldl (stepBy R) m (ps @ [p]) = pairRecord ((ps @ [p]) ! length ps)"
        using at True by (simp add: stepBy_def diff_at)
      moreover have "R (?d (ps @ [p]) (length ps)) (difference m)"
        using True above tr by auto
      moreover have "\<forall>j<length (ps @ [p]). \<not> R (?d (ps @ [p]) j) (?d (ps @ [p]) (length ps))"
        using best True tr irr by (auto simp add: nth_append less_Suc_eq)
      moreover have "\<forall>j<length ps. ?d (ps @ [p]) j \<noteq> ?d (ps @ [p]) (length ps)"
        using best True by (auto simp add: nth_append)
      ultimately show ?thesis
        by (intro disjI2 exI [of _ "length ps"]) simp
    qed
  qed
qed

lemma gt_order: "transp gt" "irreflp gt"
proof -
  have "gt a b \<Longrightarrow> gt b c \<Longrightarrow> gt a c" for a b c
    by (cases a; cases b; cases c) auto
  then show "transp gt" by (blast intro: transpI)
  have "\<not> gt a a" for a by (cases a) auto
  then show "irreflp gt" by (blast intro: irreflpI)
qed

lemma lt_order: "transp lt" "irreflp lt"
proof -
  have "lt a b \<Longrightarrow> lt b c \<Longrightarrow> lt a c" for a b c
    by (cases a; cases b; cases c) auto
  then show "transp lt" by (blast intro: transpI)
  have "\<not> lt a a" for a by (cases a) auto
  then show "irreflp lt" by (blast intro: irreflpI)
qed

lemma zip_tl_nth:
  "Suc i < length cs \<Longrightarrow> zip cs (tl cs) ! i = (cs ! i, cs ! Suc i)"
  by (simp add: nth_tl)

lemma length_zip_tl: "length (zip cs (tl cs)) = length cs - 1"
  by simp

lemma pairDifference_adjacent:
  "Suc i < length cs \<Longrightarrow> pairDifference (zip cs (tl cs) ! i) = adjacentDifference cs i"
  by (simp add: nth_tl pairDifference_def adjacentDifference_def)

lemma pairRecord_adjacent:
  "Suc i < length cs \<Longrightarrow>
     pairRecord (zip cs (tl cs) ! i) =
       \<lparr> difference = adjacentDifference cs i, firstCommit = Some (cs ! i),
         secondCommit = Some (cs ! Suc i) \<rparr>"
  by (simp add: nth_tl pairRecord_def pairDifference_def adjacentDifference_def)

lemma scan_timeDifferences:
  "timeDifferences (scan t cs) = map (adjacentDifference cs) [0..<length cs - 1]"
proof -
  have "map pairDifference (zip cs (tl cs)) = map (adjacentDifference cs) [0..<length cs - 1]"
    by (rule nth_equalityI) (simp_all add: nth_tl pairDifference_def adjacentDifference_def)
  then show ?thesis
    by (simp add: scan_def forEachCommit_fold initialStats_def)
qed

text \<open>What the pass leaves in an extreme, for either comparison.\<close>

lemma scan_extreme:
  assumes "transp R" and "irreflp R"
  shows "(foldl (stepBy R) m (zip cs (tl cs)) = m
            \<and> (\<forall>j. Suc j < length cs \<longrightarrow> \<not> R (adjacentDifference cs j) (difference m)))
       \<or> (\<exists>i. Suc i < length cs
            \<and> foldl (stepBy R) m (zip cs (tl cs)) =
                \<lparr> difference = adjacentDifference cs i, firstCommit = Some (cs ! i),
                  secondCommit = Some (cs ! Suc i) \<rparr>
            \<and> R (adjacentDifference cs i) (difference m)
            \<and> (\<forall>j. Suc j < length cs \<longrightarrow> \<not> R (adjacentDifference cs j) (adjacentDifference cs i))
            \<and> (\<forall>j<i. adjacentDifference cs j \<noteq> adjacentDifference cs i))"
proof -
  let ?ps = "zip cs (tl cs)"
  have len: "\<And>j. j < length ?ps \<longleftrightarrow> Suc j < length cs"
    by auto
  from foldl_stepBy [OF assms, of m ?ps]
  show ?thesis
  proof (elim disjE conjE exE)
    assume "foldl (stepBy R) m ?ps = m"
      and "\<forall>j<length ?ps. \<not> R (pairDifference (?ps ! j)) (difference m)"
    then show ?thesis
      using len by (auto simp add: pairDifference_adjacent simp del: nth_zip)
  next
    fix i
    assume i: "i < length ?ps"
      and at: "foldl (stepBy R) m ?ps = pairRecord (?ps ! i)"
      and above: "R (pairDifference (?ps ! i)) (difference m)"
      and best: "\<forall>j<length ?ps. \<not> R (pairDifference (?ps ! j)) (pairDifference (?ps ! i))"
      and first: "\<forall>j<i. pairDifference (?ps ! j) \<noteq> pairDifference (?ps ! i)"
    from i have i': "Suc i < length cs" by auto
    have "\<forall>j. Suc j < length cs \<longrightarrow> \<not> R (adjacentDifference cs j) (adjacentDifference cs i)"
      using best i' len by (auto simp add: pairDifference_adjacent simp del: nth_zip)
    moreover have "\<forall>j<i. adjacentDifference cs j \<noteq> adjacentDifference cs i"
    proof (intro allI impI)
      fix j assume "j < i"
      with i' have "Suc j < length cs" by simp
      with first \<open>j < i\<close> i' show "adjacentDifference cs j \<noteq> adjacentDifference cs i"
        by (auto simp add: pairDifference_adjacent simp del: nth_zip)
    qed
    ultimately show ?thesis
      using i' at above by (intro disjI2 exI [of _ i]) (simp add: pairRecord_adjacent pairDifference_adjacent del: nth_zip)
  qed
qed

lemma scan_maxDifference:
  "maxDifference (scan t cs) = foldl (stepBy gt) (maxDifference initialStats) (zip cs (tl cs))"
  by (simp add: scan_def forEachCommit_fold)

lemma scan_minDifference:
  "minDifference (scan t cs) = foldl (stepBy lt) (minDifference initialStats) (zip cs (tl cs))"
  by (simp add: scan_def forEachCommit_fold)

lemma initial_extremes:
  "maxDifference initialStats =
     \<lparr> difference = Num MIN_SAFE_INTEGER, firstCommit = None, secondCommit = None \<rparr>"
  "minDifference initialStats =
     \<lparr> difference = Num MAX_SAFE_INTEGER, firstCommit = None, secondCommit = None \<rparr>"
  by (simp_all add: initialStats_def)

lemma maxDifference_cases:
  "(maxDifference (scan t cs) = maxDifference initialStats
      \<and> (\<forall>j. Suc j < length cs \<longrightarrow> \<not> gt (adjacentDifference cs j) (Num MIN_SAFE_INTEGER)))
   \<or> (\<exists>i. Suc i < length cs
        \<and> maxDifference (scan t cs) =
            \<lparr> difference = adjacentDifference cs i, firstCommit = Some (cs ! i),
              secondCommit = Some (cs ! Suc i) \<rparr>
        \<and> gt (adjacentDifference cs i) (Num MIN_SAFE_INTEGER)
        \<and> (\<forall>j. Suc j < length cs \<longrightarrow> \<not> gt (adjacentDifference cs j) (adjacentDifference cs i))
        \<and> (\<forall>j<i. adjacentDifference cs j \<noteq> adjacentDifference cs i))"
  using scan_extreme [of gt "maxDifference initialStats" cs, OF gt_order]
  unfolding scan_maxDifference by (simp add: initial_extremes)

lemma minDifference_cases:
  "(minDifference (scan t cs) = minDifference initialStats
      \<and> (\<forall>j. Suc j < length cs \<longrightarrow> \<not> lt (adjacentDifference cs j) (Num MAX_SAFE_INTEGER)))
   \<or> (\<exists>i. Suc i < length cs
        \<and> minDifference (scan t cs) =
            \<lparr> difference = adjacentDifference cs i, firstCommit = Some (cs ! i),
              secondCommit = Some (cs ! Suc i) \<rparr>
        \<and> lt (adjacentDifference cs i) (Num MAX_SAFE_INTEGER)
        \<and> (\<forall>j. Suc j < length cs \<longrightarrow> \<not> lt (adjacentDifference cs j) (adjacentDifference cs i))
        \<and> (\<forall>j<i. adjacentDifference cs j \<noteq> adjacentDifference cs i))"
  using scan_extreme [of lt "minDifference initialStats" cs, OF lt_order]
  unfolding scan_minDifference by (simp add: initial_extremes)

lemma adjacentDifference_value:
  assumes "timestamp (cs ! i) = Num a" "timestamp (cs ! Suc i) = Num b"
  shows "\<exists>d. adjacentDifference cs i = Num d \<and> sgn d = sgn (a - b)
           \<and> (\<bar>a - b\<bar> \<le> 2 ^ 53 \<longrightarrow> d = a - b)"
  using assms by (simp add: adjacentDifference_def sgn_toDouble toDouble_exact)

text \<open>
  Claim C2, amended. The pass records one signed difference per adjacent pair, in log order
  and without sorting the commits: the difference at position \<open>i\<close> is
  \<open>timestamp[i] - timestamp[i+1]\<close> as the floating-point subtraction gives it, which has the
  sign of the exact difference and is the exact difference up to \<open>2^53\<close> ms. Provided some
  difference is a number above \<open>MIN_SAFE_INTEGER\<close>, \<open>maxDifference\<close> is an adjacent pair whose
  difference is such a number and is exceeded by no difference; it holds the pair's two
  commits and is the first pair with that difference. Likewise \<open>minDifference\<close>, provided some
  difference is a number below \<open>MAX_SAFE_INTEGER\<close>.
\<close>

theorem adjacent_differences_and_extremes:
  "timeDifferences (scan t cs) = map (adjacentDifference cs) [0..<length cs - 1]
   \<and> (\<forall>i a b. timestamp (cs ! i) = Num a \<and> timestamp (cs ! Suc i) = Num b \<longrightarrow>
         (\<exists>d. adjacentDifference cs i = Num d \<and> sgn d = sgn (a - b)
             \<and> (\<bar>a - b\<bar> \<le> 2 ^ 53 \<longrightarrow> d = a - b)))
   \<and> ((\<exists>i. Suc i < length cs \<and> gt (adjacentDifference cs i) (Num MIN_SAFE_INTEGER)) \<longrightarrow>
        (\<exists>i. Suc i < length cs
          \<and> maxDifference (scan t cs) =
              \<lparr> difference = adjacentDifference cs i, firstCommit = Some (cs ! i),
                secondCommit = Some (cs ! Suc i) \<rparr>
          \<and> gt (adjacentDifference cs i) (Num MIN_SAFE_INTEGER)
          \<and> (\<forall>j. Suc j < length cs \<longrightarrow> \<not> gt (adjacentDifference cs j) (adjacentDifference cs i))
          \<and> (\<forall>j<i. adjacentDifference cs j \<noteq> adjacentDifference cs i)))
   \<and> ((\<exists>i. Suc i < length cs \<and> lt (adjacentDifference cs i) (Num MAX_SAFE_INTEGER)) \<longrightarrow>
        (\<exists>i. Suc i < length cs
          \<and> minDifference (scan t cs) =
              \<lparr> difference = adjacentDifference cs i, firstCommit = Some (cs ! i),
                secondCommit = Some (cs ! Suc i) \<rparr>
          \<and> lt (adjacentDifference cs i) (Num MAX_SAFE_INTEGER)
          \<and> (\<forall>j. Suc j < length cs \<longrightarrow> \<not> lt (adjacentDifference cs j) (adjacentDifference cs i))
          \<and> (\<forall>j<i. adjacentDifference cs j \<noteq> adjacentDifference cs i)))"
proof (intro conjI allI impI)
  show "timeDifferences (scan t cs) = map (adjacentDifference cs) [0..<length cs - 1]"
    by (rule scan_timeDifferences)
next
  fix i a b
  assume "timestamp (cs ! i) = Num a \<and> timestamp (cs ! Suc i) = Num b"
  then show "\<exists>d. adjacentDifference cs i = Num d \<and> sgn d = sgn (a - b)
             \<and> (\<bar>a - b\<bar> \<le> 2 ^ 53 \<longrightarrow> d = a - b)"
    by (intro adjacentDifference_value) simp_all
next
  assume "\<exists>i. Suc i < length cs \<and> gt (adjacentDifference cs i) (Num MIN_SAFE_INTEGER)"
  with maxDifference_cases [of t cs]
  show "\<exists>i. Suc i < length cs
          \<and> maxDifference (scan t cs) =
              \<lparr> difference = adjacentDifference cs i, firstCommit = Some (cs ! i),
                secondCommit = Some (cs ! Suc i) \<rparr>
          \<and> gt (adjacentDifference cs i) (Num MIN_SAFE_INTEGER)
          \<and> (\<forall>j. Suc j < length cs \<longrightarrow> \<not> gt (adjacentDifference cs j) (adjacentDifference cs i))
          \<and> (\<forall>j<i. adjacentDifference cs j \<noteq> adjacentDifference cs i)"
    by blast
next
  assume "\<exists>i. Suc i < length cs \<and> lt (adjacentDifference cs i) (Num MAX_SAFE_INTEGER)"
  with minDifference_cases [of t cs]
  show "\<exists>i. Suc i < length cs
          \<and> minDifference (scan t cs) =
              \<lparr> difference = adjacentDifference cs i, firstCommit = Some (cs ! i),
                secondCommit = Some (cs ! Suc i) \<rparr>
          \<and> lt (adjacentDifference cs i) (Num MAX_SAFE_INTEGER)
          \<and> (\<forall>j. Suc j < length cs \<longrightarrow> \<not> lt (adjacentDifference cs j) (adjacentDifference cs i))
          \<and> (\<forall>j<i. adjacentDifference cs j \<noteq> adjacentDifference cs i)"
    by blast
qed

lemmas scan_eval =
  scan_def initialStats_def forEachBody_def updateAuthor_def updateMessages_def
  updateDifferences_def Let_def MIN_SAFE_INTEGER_def MAX_SAFE_INTEGER_def toDouble_exact

theorem adjacent_differences_and_extremes_witness:
  "timeDifferences (scan 10
        [\<lparr>hash = ''c3'', author = ''dev'', message = ''third'', timestamp = Num 5000, changes = 1\<rparr>,
         \<lparr>hash = ''b2'', author = ''dev'', message = ''second'', timestamp = Num 4000, changes = 2\<rparr>,
         \<lparr>hash = ''a1'', author = ''dev'', message = ''first'', timestamp = Num 0, changes = 3\<rparr>])
       = [Num 1000, Num 4000]
   \<and> maxDifference (scan 10
        [\<lparr>hash = ''c3'', author = ''dev'', message = ''third'', timestamp = Num 5000, changes = 1\<rparr>,
         \<lparr>hash = ''b2'', author = ''dev'', message = ''second'', timestamp = Num 4000, changes = 2\<rparr>,
         \<lparr>hash = ''a1'', author = ''dev'', message = ''first'', timestamp = Num 0, changes = 3\<rparr>])
       = \<lparr>difference = Num 4000,
          firstCommit = Some \<lparr>hash = ''b2'', author = ''dev'', message = ''second'', timestamp = Num 4000, changes = 2\<rparr>,
          secondCommit = Some \<lparr>hash = ''a1'', author = ''dev'', message = ''first'', timestamp = Num 0, changes = 3\<rparr>\<rparr>
   \<and> minDifference (scan 10
        [\<lparr>hash = ''c3'', author = ''dev'', message = ''third'', timestamp = Num 5000, changes = 1\<rparr>,
         \<lparr>hash = ''b2'', author = ''dev'', message = ''second'', timestamp = Num 4000, changes = 2\<rparr>,
         \<lparr>hash = ''a1'', author = ''dev'', message = ''first'', timestamp = Num 0, changes = 3\<rparr>])
       = \<lparr>difference = Num 1000,
          firstCommit = Some \<lparr>hash = ''c3'', author = ''dev'', message = ''third'', timestamp = Num 5000, changes = 1\<rparr>,
          secondCommit = Some \<lparr>hash = ''b2'', author = ''dev'', message = ''second'', timestamp = Num 4000, changes = 2\<rparr>\<rparr>
   \<and> maxDifference (scan 10
        [\<lparr>hash = ''b2'', author = ''dev'', message = ''far future'', timestamp = Num 8640000000000000, changes = 1\<rparr>,
         \<lparr>hash = ''a1'', author = ''dev'', message = ''far past'', timestamp = Num (- 8640000000000000), changes = 1\<rparr>])
       = \<lparr>difference = Num 17280000000000000,
          firstCommit = Some \<lparr>hash = ''b2'', author = ''dev'', message = ''far future'', timestamp = Num 8640000000000000, changes = 1\<rparr>,
          secondCommit = Some \<lparr>hash = ''a1'', author = ''dev'', message = ''far past'', timestamp = Num (- 8640000000000000), changes = 1\<rparr>\<rparr>"
proof -
  let ?cs =
    "[\<lparr>hash = ''c3'', author = ''dev'', message = ''third'', timestamp = Num 5000, changes = 1\<rparr>,
      \<lparr>hash = ''b2'', author = ''dev'', message = ''second'', timestamp = Num 4000, changes = 2\<rparr>,
      \<lparr>hash = ''a1'', author = ''dev'', message = ''first'', timestamp = Num 0, changes = 3\<rparr>]"
  let ?far =
    "[\<lparr>hash = ''b2'', author = ''dev'', message = ''far future'', timestamp = Num 8640000000000000, changes = 1\<rparr>,
      \<lparr>hash = ''a1'', author = ''dev'', message = ''far past'', timestamp = Num (- 8640000000000000), changes = 1\<rparr>]"
  have upt2: "[0..<Suc (Suc 0)] = [0, Suc 0]"
    by (simp add: upt_rec)
  note near = adjacent_differences_and_extremes [of 10 ?cs]
  note far = adjacent_differences_and_extremes [of 10 ?far]
  from near have "timeDifferences (scan 10 ?cs) = map (adjacentDifference ?cs) [0..<length ?cs - 1]"
    by (rule conjunct1)
  then have diffs: "timeDifferences (scan 10 ?cs) = [Num 1000, Num 4000]"
    by (simp add: adjacentDifference_def upt2 toDouble_exact)
  have far0: "adjacentDifference ?far 0 = Num 17280000000000000"
    by (simp add: adjacentDifference_def roundToDouble_examples)
  then have "\<exists>i. Suc i < length ?far \<and> gt (adjacentDifference ?far i) (Num MIN_SAFE_INTEGER)"
    by (intro exI [of _ 0]) (simp add: MIN_SAFE_INTEGER_def)
  with far obtain i where "Suc i < length ?far"
    and "maxDifference (scan 10 ?far) =
          \<lparr> difference = adjacentDifference ?far i, firstCommit = Some (?far ! i),
            secondCommit = Some (?far ! Suc i) \<rparr>"
    by blast
  moreover from \<open>Suc i < length ?far\<close> have "i = 0" by simp
  ultimately have farmax: "maxDifference (scan 10 ?far) =
          \<lparr> difference = adjacentDifference ?far 0, firstCommit = Some (?far ! 0),
            secondCommit = Some (?far ! Suc 0) \<rparr>"
    by simp
  have "maxDifference (scan 10 ?cs) = \<lparr>difference = Num 4000,
          firstCommit = Some \<lparr>hash = ''b2'', author = ''dev'', message = ''second'', timestamp = Num 4000, changes = 2\<rparr>,
          secondCommit = Some \<lparr>hash = ''a1'', author = ''dev'', message = ''first'', timestamp = Num 0, changes = 3\<rparr>\<rparr>"
    by (simp add: scan_eval)
  moreover have "minDifference (scan 10 ?cs) = \<lparr>difference = Num 1000,
          firstCommit = Some \<lparr>hash = ''c3'', author = ''dev'', message = ''third'', timestamp = Num 5000, changes = 1\<rparr>,
          secondCommit = Some \<lparr>hash = ''b2'', author = ''dev'', message = ''second'', timestamp = Num 4000, changes = 2\<rparr>\<rparr>"
    by (simp add: scan_eval)
  moreover from farmax far0 have "maxDifference (scan 10 ?far) =
        \<lparr>difference = Num 17280000000000000,
          firstCommit = Some \<lparr>hash = ''b2'', author = ''dev'', message = ''far future'', timestamp = Num 8640000000000000, changes = 1\<rparr>,
          secondCommit = Some \<lparr>hash = ''a1'', author = ''dev'', message = ''far past'', timestamp = Num (- 8640000000000000), changes = 1\<rparr>\<rparr>"
    by simp
  ultimately show ?thesis using diffs by blast
qed

text \<open>
  Rounding decides ties between pairs. Of the three differences below the first is
  \<open>2^53 + 3\<close> and the third \<open>2^53 + 4\<close> exactly; as doubles both are \<open>2^53 + 4\<close>, so the
  third does not exceed the first and the first pair stays the maximum.
\<close>

lemma rounded_tie_keeps_first_pair:
  "timeDifferences (scan 10
      [\<lparr>hash = ''h0'', author = ''dev'', message = ''d'', timestamp = Num 8000000000000000, changes = 1\<rparr>,
       \<lparr>hash = ''h1'', author = ''dev'', message = ''c'', timestamp = Num (- 1007199254740995), changes = 1\<rparr>,
       \<lparr>hash = ''h2'', author = ''dev'', message = ''b'', timestamp = Num 7999999999999005, changes = 1\<rparr>,
       \<lparr>hash = ''h3'', author = ''dev'', message = ''a'', timestamp = Num (- 1007199254741991), changes = 1\<rparr>])
     = [Num 9007199254740996, Num (- 9007199254740000), Num 9007199254740996]
   \<and> firstCommit (maxDifference (scan 10
      [\<lparr>hash = ''h0'', author = ''dev'', message = ''d'', timestamp = Num 8000000000000000, changes = 1\<rparr>,
       \<lparr>hash = ''h1'', author = ''dev'', message = ''c'', timestamp = Num (- 1007199254740995), changes = 1\<rparr>,
       \<lparr>hash = ''h2'', author = ''dev'', message = ''b'', timestamp = Num 7999999999999005, changes = 1\<rparr>,
       \<lparr>hash = ''h3'', author = ''dev'', message = ''a'', timestamp = Num (- 1007199254741991), changes = 1\<rparr>]))
     = Some \<lparr>hash = ''h0'', author = ''dev'', message = ''d'', timestamp = Num 8000000000000000, changes = 1\<rparr>"
  by (simp add: scan_eval roundToDouble_examples)

text \<open>
  Claim C2, as stated for every sequence of at least two commits, fails when no difference is
  below the initial value of \<open>minDifference\<close>: for two commits at the two ends of the range of
  valid dates (\<open>8.64e15\<close> ms either side of the epoch) the only pair is not recorded as the
  minimum, and no commits are referenced. The difference \<open>17280000000000000\<close> is even and
  below \<open>2^54\<close>, hence a double, and the rounding leaves it as it is.
\<close>

theorem extremes_counterexample:
  "2 \<le> length
      [\<lparr>hash = ''b2'', author = ''dev'', message = ''far future'', timestamp = Num 8640000000000000, changes = 1\<rparr>,
       \<lparr>hash = ''a1'', author = ''dev'', message = ''far past'', timestamp = Num (- 8640000000000000), changes = 1\<rparr>]
   \<and> timeDifferences (scan 10
      [\<lparr>hash = ''b2'', author = ''dev'', message = ''far future'', timestamp = Num 8640000000000000, changes = 1\<rparr>,
       \<lparr>hash = ''a1'', author = ''dev'', message = ''far past'', timestamp = Num (- 8640000000000000), changes = 1\<rparr>])
     = [Num 17280000000000000]
   \<and> minDifference (scan 10
      [\<lparr>hash = ''b2'', author = ''dev'', message = ''far future'', timestamp = Num 8640000000000000, changes = 1\<rparr>,
       \<lparr>hash = ''a1'', author = ''dev'', message = ''far past'', timestamp = Num (- 8640000000000000), changes = 1\<rparr>])
     = \<lparr>difference = Num MAX_SAFE_INTEGER, firstCommit = None, secondCommit = None\<rparr>"
  by (simp add: scan_eval roundToDouble_examples)

text \<open>
  Claim C9, as stated: after the pass over at least two commits both extremes reference
  commits. It fails for two commits whose dates are invalid: both differences compare false
  with every number, and both initial values with their null references remain.
\<close>

theorem sentinels_remain_counterexample:
  "2 \<le> length
      [\<lparr>hash = ''b2'', author = ''dev'', message = ''second'', timestamp = NaN, changes = 1\<rparr>,
       \<lparr>hash = ''a1'', author = ''dev'', message = ''first'', timestamp = NaN, changes = 1\<rparr>]
   \<and> maxDifference (scan 10
      [\<lparr>hash = ''b2'', author = ''dev'', message = ''second'', timestamp = NaN, changes = 1\<rparr>,
       \<lparr>hash = ''a1'', author = ''dev'', message = ''first'', timestamp = NaN, changes = 1\<rparr>])
     = \<lparr>difference = Num MIN_SAFE_INTEGER, firstCommit = None, secondCommit = None\<rparr>
   \<and> minDifference (scan 10
      [\<lparr>hash = ''b2'', author = ''dev'', message = ''second'', timestamp = NaN, changes = 1\<rparr>,
       \<lparr>hash = ''a1'', author = ''dev'', message = ''first'', timestamp = NaN, changes = 1\<rparr>])
     = \<lparr>difference = Num MAX_SAFE_INTEGER, firstCommit = None, secondCommit = None\<rparr>"
  by (simp add: scan_eval)

lemma valid_range_differences:
  assumes "2 \<le> length cs"
    and "\<forall>c \<in> set cs. \<exists>x. timestamp c = Num x \<and> \<bar>x\<bar> < 2 ^ 52"
  shows "gt (adjacentDifference cs 0) (Num MIN_SAFE_INTEGER)"
    and "lt (adjacentDifference cs 0) (Num MAX_SAFE_INTEGER)"
proof -
  from assms(1) have "0 < length cs" "Suc 0 < length cs"
    by linarith+
  then have "cs ! 0 \<in> set cs" "cs ! Suc 0 \<in> set cs"
    by (simp_all only: nth_mem)
  with assms(2) obtain x y where
    "timestamp (cs ! 0) = Num x" "\<bar>x\<bar> < 2 ^ 52" "timestamp (cs ! Suc 0) = Num y" "\<bar>y\<bar> < 2 ^ 52"
    by blast
  then show "gt (adjacentDifference cs 0) (Num MIN_SAFE_INTEGER)"
    and "lt (adjacentDifference cs 0) (Num MAX_SAFE_INTEGER)"
    by (simp_all add: adjacentDifference_def MIN_SAFE_INTEGER_def MAX_SAFE_INTEGER_def
        toDouble_exact)
qed

text \<open>
  Claim C9, amended. \<open>maxDifference\<close> references commits exactly when some adjacent
  difference is a number above \<open>MIN_SAFE_INTEGER\<close>, and \<open>minDifference\<close> exactly when some
  adjacent difference is a number below \<open>MAX_SAFE_INTEGER\<close>; the two references are then two
  adjacent commits of the sequence, and otherwise both are null. Both conditions hold for every
  sequence of at least two commits whose dates are valid and less than \<open>2^52\<close> ms from the
  epoch.
\<close>

theorem extremes_reference_adjacent_commits:
  "((\<exists>i. Suc i < length cs \<and> gt (adjacentDifference cs i) (Num MIN_SAFE_INTEGER))
       \<longrightarrow> (\<exists>i. Suc i < length cs
              \<and> firstCommit (maxDifference (scan t cs)) = Some (cs ! i)
              \<and> secondCommit (maxDifference (scan t cs)) = Some (cs ! Suc i)))
   \<and> (\<not> (\<exists>i. Suc i < length cs \<and> gt (adjacentDifference cs i) (Num MIN_SAFE_INTEGER))
       \<longrightarrow> firstCommit (maxDifference (scan t cs)) = None
          \<and> secondCommit (maxDifference (scan t cs)) = None)
   \<and> ((\<exists>i. Suc i < length cs \<and> lt (adjacentDifference cs i) (Num MAX_SAFE_INTEGER))
       \<longrightarrow> (\<exists>i. Suc i < length cs
              \<and> firstCommit (minDifference (scan t cs)) = Some (cs ! i)
              \<and> secondCommit (minDifference (scan t cs)) = Some (cs ! Suc i)))
   \<and> (\<not> (\<exists>i. Suc i < length cs \<and> lt (adjacentDifference cs i) (Num MAX_SAFE_INTEGER))
       \<longrightarrow> firstCommit (minDifference (scan t cs)) = None
          \<and> secondCommit (minDifference (scan t cs)) = None)
   \<and> (2 \<le> length cs \<and> (\<forall>c \<in> set cs. \<exists>x. timestamp c = Num x \<and> \<bar>x\<bar> < 2 ^ 52)
       \<longrightarrow> (\<exists>i. Suc i < length cs
              \<and> firstCommit (maxDifference (scan t cs)) = Some (cs ! i)
              \<and> secondCommit (maxDifference (scan t cs)) = Some (cs ! Suc i))
          \<and> (\<exists>i. Suc i < length cs
              \<and> firstCommit (minDifference (scan t cs)) = Some (cs ! i)
              \<and> secondCommit (minDifference (scan t cs)) = Some (cs ! Suc i)))"
proof -
  let ?above = "\<exists>i. Suc i < length cs \<and> gt (adjacentDifference cs i) (Num MIN_SAFE_INTEGER)"
  let ?below = "\<exists>i. Suc i < length cs \<and> lt (adjacentDifference cs i) (Num MAX_SAFE_INTEGER)"
  let ?maxrefs = "\<exists>i. Suc i < length cs
              \<and> firstCommit (maxDifference (scan t cs)) = Some (cs ! i)
              \<and> secondCommit (maxDifference (scan t cs)) = Some (cs ! Suc i)"
  let ?minrefs = "\<exists>i. Suc i < length cs
              \<and> firstCommit (minDifference (scan t cs)) = Some (cs ! i)
              \<and> secondCommit (minDifference (scan t cs)) = Some (cs ! Suc i)"
  have max1: "?above \<Longrightarrow> ?maxrefs"
    using maxDifference_cases [of t cs] by (elim disjE conjE exE) (blast, force)
  have max2: "\<not> ?above \<Longrightarrow> firstCommit (maxDifference (scan t cs)) = None
          \<and> secondCommit (maxDifference (scan t cs)) = None"
    using maxDifference_cases [of t cs]
    by (elim disjE conjE exE) (simp add: initial_extremes, blast)
  have min1: "?below \<Longrightarrow> ?minrefs"
    using minDifference_cases [of t cs] by (elim disjE conjE exE) (blast, force)
  have min2: "\<not> ?below \<Longrightarrow> firstCommit (minDifference (scan t cs)) = None
          \<and> secondCommit (minDifference (scan t cs)) = None"
    using minDifference_cases [of t cs]
    by (elim disjE conjE exE) (simp add: initial_extremes, blast)
  have range: "?above \<and> ?below"
    if "2 \<le> length cs \<and> (\<forall>c \<in> set cs. \<exists>x. timestamp c = Num x \<and> \<bar>x\<bar> < 2 ^ 52)"
  proof -
    from that have len: "Suc 0 < length cs" by simp
    from that valid_range_differences [of cs] len show ?thesis by blast
  qed
  from max1 max2 min1 min2 range show ?thesis by blast
qed

theorem extremes_reference_adjacent_commits_witness:
  "(\<exists>i. Suc i < length
        [\<lparr>hash = ''c3'', author = ''dev'', message = ''third'', timestamp = Num 5000, changes = 1\<rparr>,
         \<lparr>hash = ''b2'', author = ''ann'', message = ''second'', timestamp = Num 4000, changes = 2\<rparr>,
         \<lparr>hash = ''a1'', author = ''dev'', message = ''first'', timestamp = Num 0, changes = 3\<rparr>]
      \<and> firstCommit (maxDifference (scan 10
        [\<lparr>hash = ''c3'', author = ''dev'', message = ''third'', timestamp = Num 5000, changes = 1\<rparr>,
         \<lparr>hash = ''b2'', author = ''ann'', message = ''second'', timestamp = Num 4000, changes = 2\<rparr>,
         \<lparr>hash = ''a1'', author = ''dev'', message = ''first'', timestamp = Num 0, changes = 3\<rparr>]))
        = Some
          ([\<lparr>hash = ''c3'', author = ''dev'', message = ''third'', timestamp = Num 5000, changes = 1\<rparr>,
            \<lparr>hash = ''b2'', author = ''ann'', message = ''second'', timestamp = Num 4000, changes = 2\<rparr>,
            \<lparr>hash = ''a1'', author = ''dev'', message = ''first'', timestamp = Num 0, changes = 3\<rparr>] ! i))
   \<and> (\<exists>i. Suc i < length
        [\<lparr>hash = ''c3'', author = ''dev'', message = ''third'', timestamp = Num 5000, changes = 1\<rparr>,
         \<lparr>hash = ''b2'', author = ''ann'', message = ''second'', timestamp = Num 4000, changes = 2\<rparr>,
         \<lparr>hash = ''a1'', author = ''dev'', message = ''first'', timestamp = Num 0, changes = 3\<rparr>]
      \<and> firstCommit (minDifference (scan 10
        [\<lparr>hash = ''c3'', author = ''dev'', message = ''third'', timestamp = Num 5000, changes = 1\<rparr>,
         \<lparr>hash = ''b2'', author = ''ann'', message = ''second'', timestamp = Num 4000, changes = 2\<rparr>,
         \<lparr>hash = ''a1'', author = ''dev'', message = ''first'', timestamp = Num 0, changes = 3\<rparr>]))
        = Some
          ([\<lparr>hash = ''c3'', author = ''dev'', message = ''third'', timestamp = Num 5000, changes = 1\<rparr>,
            \<lparr>hash = ''b2'', author = ''ann'', message = ''second'', timestamp = Num 4000, changes = 2\<rparr>,
            \<lparr>hash = ''a1'', author = ''dev'', message = ''first'', timestamp = Num 0, changes = 3\<rparr>] ! i))"
proof -
  let ?cs =
    "[\<lparr>hash = ''c3'', author = ''dev'', message = ''third'', timestamp = Num 5000, changes = 1\<rparr>,
      \<lparr>hash = ''b2'', author = ''ann'', message = ''second'', timestamp = Num 4000, changes = 2\<rparr>,
      \<lparr>hash = ''a1'', author = ''dev'', message = ''first'', timestamp = Num 0, changes = 3\<rparr>]"
  have valid: "2 \<le> length ?cs \<and> (\<forall>c \<in> set ?cs. \<exists>x. timestamp c = Num x \<and> \<bar>x\<bar> < 2 ^ 52)"
    by simp
  from extremes_reference_adjacent_commits [of ?cs 10] valid
  show ?thesis by blast
qed

section \<open>Blocks without a diffstat line\<close>

lemma delimiter_literal: "delimiter = ''.\<newline>.''"
  by (simp add: delimiter_def newline_def)

text \<open>
  Claim C4. No block should abort the whole parse. A commit that changes no file (an empty
  commit) is printed without any diffstat line, so its block has only the four header
  lines; \<open>stats.pop()\<close> is then \<open>undefined\<close> and \<open>changes.match\<close> throws. In the log below
  the first block is complete and the second is such a commit: the parse ends with the
  TypeError and yields no commit at all.
\<close>

theorem empty_commit_aborts_parse:
  "commits nd
     (''.\<newline>.1f3a\<newline>dev@example.com\<newline>Add parser\<newline>2021-03-04 10:00:00 +0000\<newline>''
      @ ''\<newline> src/index.ts | 2 +-\<newline> 1 file changed, 1 insertion(+), 1 deletion(-)\<newline>\<newline>''
      @ ''.\<newline>.9c2e\<newline>dev@example.com\<newline>Empty commit\<newline>2021-03-03 10:00:00 +0000\<newline>'')
   = Inl TypeError"
  by (simp add: commits_def commitStrings_def delimiter_def newline_def trim_def isWhiteSpace_def
      parseCommit_def)

section \<open>The place of the option check\<close>

text \<open>
  Claim C8, as stated: with both modes requested the run ends with the conflict error
  before the log is retrieved or parsed. It fails: the log is retrieved first, and when that
  fails the run ends with the log error; when it succeeds, the log is also parsed before the
  options are checked.
\<close>

theorem conflict_check_counterexample:
  "verbose \<lparr>verbose = True, concise = True, threshold = 10, csv = False, out = ''./commits.csv''\<rparr>
   \<and> concise \<lparr>verbose = True, concise = True, threshold = 10, csv = False, out = ''./commits.csv''\<rparr>
   \<and> run \<lparr>verbose = True, concise = True, threshold = 10, csv = False, out = ''./commits.csv''\<rparr>
          \<lparr>gitLog = None, newDate = (\<lambda>_. NaN), pathSep = ''/'', canWrite = (\<lambda>_. True)\<rparr>
       = ([ExecGitLog], LogUnavailable)
   \<and> run \<lparr>verbose = True, concise = True, threshold = 10, csv = False, out = ''./commits.csv''\<rparr>
          \<lparr>gitLog = Some [], newDate = (\<lambda>_. NaN), pathSep = ''/'', canWrite = (\<lambda>_. True)\<rparr>
       = ([ExecGitLog, ParseCommits, CheckOptions], ConflictingOptions)"
  by (simp add: run_def commits_def commitStrings_def delimiter_def)

text \<open>
  Claim C8, amended. With both modes requested the run retrieves and parses the log and then
  checks the options: it ends with the conflict error exactly when retrieval and parsing
  succeed, with the log error when retrieval fails, and in no case does it go on to the CSV
  export, the commit-count check or the statistics pass.
\<close>

theorem conflict_check_follows_parsing:
  assumes "verbose a \<and> concise a"
  shows "prefix (fst (run a env)) [ExecGitLog, ParseCommits, CheckOptions]
     \<and> (snd (run a env) = ConflictingOptions
          \<longleftrightarrow> (\<exists>rawLog cs. gitLog env = Some rawLog \<and> commits (newDate env) rawLog = Inr cs))
     \<and> (gitLog env = None \<longrightarrow> run a env = ([ExecGitLog], LogUnavailable))
     \<and> GenerateCsv \<notin> set (fst (run a env))
     \<and> CheckCommitCount \<notin> set (fst (run a env))
     \<and> ScanCommits \<notin> set (fst (run a env))"
  using assms by (auto simp add: run_def split: option.splits sum.splits)

theorem conflict_check_follows_parsing_witness:
  "run \<lparr>verbose = True, concise = True, threshold = 10, csv = True, out = ''./commits.csv''\<rparr>
       \<lparr>gitLog = Some ''no commits'', newDate = (\<lambda>_. NaN), pathSep = ''/'', canWrite = (\<lambda>_. True)\<rparr>
     = ([ExecGitLog, ParseCommits, CheckOptions], ConflictingOptions)"
proof -
  have "commits (\<lambda>_. NaN) ''no commits'' = Inr []"
    by (simp add: commits_def commitStrings_def delimiter_def)
  with conflict_check_follows_parsing [of
      "\<lparr>verbose = True, concise = True, threshold = 10, csv = True, out = ''./commits.csv''\<rparr>"
      "\<lparr>gitLog = Some ''no commits'', newDate = (\<lambda>_. NaN), pathSep = ''/'',
         canWrite = (\<lambda>_. True)\<rparr>"]
  show ?thesis by (simp add: run_def)
qed

section \<open>Digits, numbers and the two regular expressions\<close>

lemma showNat_digits: "\<forall>c \<in> set (showNat n). isDigit c"
proof (induction n rule: showNat.induct)
  case (1 n)
  show ?case
  proof (cases "n < 10")
    case True
    then show ?thesis by (subst showNat.simps) (simp add: isDigit_def)
  next
    case False
    have "n mod 10 < 10" by simp
    then have "isDigit (char_of (48 + n mod 10))"
      by (simp add: isDigit_def)
    with False 1 show ?thesis by (subst showNat.simps) simp
  qed
qed

lemma showNat_nonempty: "showNat n \<noteq> []"
  by (subst showNat.simps) simp

lemma decimalValue_snoc: "decimalValue (ds @ [c]) = 10 * decimalValue ds + digitValue c"
  by (simp add: decimalValue_def)

lemma digitValue_char_of: "k < 10 \<Longrightarrow> digitValue (char_of (48 + k)) = k"
  by (simp add: digitValue_def)

lemma decimalValue_showNat: "decimalValue (showNat n) = n"
proof (induction n rule: showNat.induct)
  case (1 n)
  show ?case
  proof (cases "n < 10")
    case True
    then show ?thesis
      by (subst showNat.simps) (simp add: decimalValue_def digitValue_char_of)
  next
    case False
    with 1 have "decimalValue (showNat (n div 10)) = n div 10" by simp
    with False show ?thesis
      by (subst showNat.simps) (simp add: decimalValue_snoc digitValue_char_of)
  qed
qed

lemma parseInt_showNat: "parseInt (showNat n) = toCount n"
  by (simp add: parseInt_def decimalValue_showNat)

lemma takeWhile_digits:
  "\<forall>c \<in> set ds. isDigit c \<Longrightarrow> \<not> isDigit r \<Longrightarrow>
     takeWhile isDigit (ds @ r # rest) = ds \<and> dropWhile isDigit (ds @ r # rest) = r # rest"
  by (induction ds) auto

lemma matchDigitsWord_digits:
  assumes "ds \<noteq> []" "\<forall>c \<in> set ds. isDigit c" "\<not> isDigit r"
  shows "matchDigitsWord w (ds @ r # rest) =
           (if prefix (CHR '' '' # w) (r # rest) then Some ds else matchDigitsWord w (r # rest))"
  using assms
proof (induction ds)
  case Nil
  then show ?case by simp
next
  case (Cons d ds)
  from Cons.prems have tw: "takeWhile isDigit (d # ds @ r # rest) = d # ds"
      "dropWhile isDigit (d # ds @ r # rest) = r # rest"
    using takeWhile_digits [of "d # ds" r rest] by simp_all
  have step: "matchDigitsWord w ((d # ds) @ r # rest) =
      (if prefix (CHR '' '' # w) (r # rest) then Some (d # ds)
       else matchDigitsWord w (ds @ r # rest))"
    unfolding append_Cons matchDigitsWord.simps(2) [of w d "ds @ r # rest"] tw by simp
  show ?case
  proof (cases "ds = []")
    case True
    with step show ?thesis by (simp del: matchDigitsWord.simps)
  next
    case False
    with Cons have "matchDigitsWord w (ds @ r # rest) =
        (if prefix (CHR '' '' # w) (r # rest) then Some ds else matchDigitsWord w (r # rest))"
      by simp
    with step show ?thesis by (simp del: matchDigitsWord.simps)
  qed
qed

lemma matchDigitsWord_nondigit:
  "\<not> isDigit c \<Longrightarrow> matchDigitsWord w (c # cs) = matchDigitsWord w cs"
  by simp

lemma matchDigitsWord_showNat:
  "\<not> isDigit r \<Longrightarrow> matchDigitsWord w (showNat n @ r # rest) =
     (if prefix (CHR '' '' # w) (r # rest) then Some (showNat n) else matchDigitsWord w (r # rest))"
  by (rule matchDigitsWord_digits) (simp_all add: showNat_nonempty showNat_digits)

lemma insertionsMatch_diffstatLine:
  "insertionsMatch (diffstatLine f ins del) = map_option showNat ins"
proof (cases ins; cases del)
  show "ins = None \<Longrightarrow> del = None \<Longrightarrow> ?thesis"
    by (simp add: insertionsMatch_def diffstatLine_def plural_def matchDigitsWord_showNat isDigit_def)
  show "ins = None \<Longrightarrow> del = Some d \<Longrightarrow> ?thesis" for d
    by (simp add: insertionsMatch_def diffstatLine_def plural_def matchDigitsWord_showNat isDigit_def)
  show "ins = Some i \<Longrightarrow> del = None \<Longrightarrow> ?thesis" for i
    by (simp add: insertionsMatch_def diffstatLine_def plural_def matchDigitsWord_showNat isDigit_def)
  show "ins = Some i \<Longrightarrow> del = Some d \<Longrightarrow> ?thesis" for i d
    by (simp add: insertionsMatch_def diffstatLine_def plural_def matchDigitsWord_showNat isDigit_def)
qed

lemma deletionsMatch_diffstatLine:
  "deletionsMatch (diffstatLine f ins del) = map_option showNat del"
proof (cases ins; cases del)
  show "ins = None \<Longrightarrow> del = None \<Longrightarrow> ?thesis"
    by (simp add: deletionsMatch_def diffstatLine_def plural_def matchDigitsWord_showNat isDigit_def)
  show "ins = None \<Longrightarrow> del = Some d \<Longrightarrow> ?thesis" for d
    by (simp add: deletionsMatch_def diffstatLine_def plural_def matchDigitsWord_showNat isDigit_def)
  show "ins = Some i \<Longrightarrow> del = None \<Longrightarrow> ?thesis" for i
    by (simp add: deletionsMatch_def diffstatLine_def plural_def matchDigitsWord_showNat isDigit_def)
  show "ins = Some i \<Longrightarrow> del = Some d \<Longrightarrow> ?thesis" for i d
    by (simp add: deletionsMatch_def diffstatLine_def plural_def matchDigitsWord_showNat isDigit_def)
qed

lemma insertions_diffstatLine:
  "insertions (diffstatLine f ins del) = (case ins of None \<Rightarrow> 0 | Some i \<Rightarrow> toCount i)"
  by (cases ins) (simp_all add: insertions_def insertionsMatch_diffstatLine parseInt_showNat)

lemma deletions_diffstatLine:
  "deletions (diffstatLine f ins del) = (case del of None \<Rightarrow> 0 | Some d \<Rightarrow> toCount d)"
  by (cases del) (simp_all add: deletions_def deletionsMatch_diffstatLine parseInt_showNat)

lemma matchDigitsWord_sound:
  "matchDigitsWord w s = Some ds \<Longrightarrow>
     ds \<noteq> [] \<and> (\<forall>c \<in> set ds. isDigit c) \<and> (\<exists>pre post. s = pre @ ds @ CHR '' '' # w @ post)"
proof (induction s)
  case Nil
  then show ?case by simp
next
  case (Cons c cs)
  show ?case
  proof (cases "takeWhile isDigit (c # cs) \<noteq> []
                 \<and> prefix (CHR '' '' # w) (dropWhile isDigit (c # cs))")
    case True
    with Cons.prems have ds: "ds = takeWhile isDigit (c # cs)"
      by (simp del: takeWhile.simps dropWhile.simps)
    from True obtain post where "dropWhile isDigit (c # cs) = (CHR '' '' # w) @ post"
      unfolding prefix_def by blast
    with takeWhile_dropWhile_id [of isDigit "c # cs"]
    have "c # cs = [] @ ds @ CHR '' '' # w @ post"
      unfolding ds by simp
    then have ex: "\<exists>pre post. c # cs = pre @ ds @ CHR '' '' # w @ post"
      by blast
    have dig: "\<forall>x \<in> set ds. isDigit x"
      unfolding ds by (auto dest: set_takeWhileD)
    from True have "ds \<noteq> []" unfolding ds by blast
    with dig ex show ?thesis by blast
  next
    case False
    with Cons.prems have "matchDigitsWord w cs = Some ds"
      by (simp del: takeWhile.simps dropWhile.simps)
    with Cons.IH obtain pre post where "ds \<noteq> []" "\<forall>c \<in> set ds. isDigit c"
      "cs = pre @ ds @ CHR '' '' # w @ post" by blast
    then have "c # cs = (c # pre) @ ds @ CHR '' '' # w @ post" by simp
    with \<open>ds \<noteq> []\<close> \<open>\<forall>c \<in> set ds. isDigit c\<close> show ?thesis by blast
  qed
qed

lemma matchDigitsWord_Cons_not_None:
  "matchDigitsWord w cs \<noteq> None \<Longrightarrow> matchDigitsWord w (c # cs) \<noteq> None"
  by (simp del: takeWhile.simps dropWhile.simps)

lemma matchDigitsWord_complete:
  assumes "ds \<noteq> []" "\<forall>c \<in> set ds. isDigit c"
  shows "matchDigitsWord w (pre @ ds @ CHR '' '' # w @ post) \<noteq> None"
proof (induction pre)
  case Nil
  have "\<not> isDigit CHR '' ''" by (simp add: isDigit_def)
  with assms have "matchDigitsWord w (ds @ CHR '' '' # w @ post) = Some ds"
    by (simp add: matchDigitsWord_digits del: matchDigitsWord.simps)
  then show ?case by simp
next
  case (Cons c pre)
  then show ?case
    unfolding append_Cons by (rule matchDigitsWord_Cons_not_None)
qed

lemma matchDigitsWord_None_iff:
  "matchDigitsWord w s = None \<longleftrightarrow>
     \<not> (\<exists>pre ds post. ds \<noteq> [] \<and> (\<forall>c \<in> set ds. isDigit c) \<and> s = pre @ ds @ CHR '' '' # w @ post)"
proof
  assume none: "matchDigitsWord w s = None"
  show "\<not> (\<exists>pre ds post. ds \<noteq> [] \<and> (\<forall>c \<in> set ds. isDigit c) \<and> s = pre @ ds @ CHR '' '' # w @ post)"
  proof
    assume "\<exists>pre ds post. ds \<noteq> [] \<and> (\<forall>c \<in> set ds. isDigit c) \<and> s = pre @ ds @ CHR '' '' # w @ post"
    then obtain pre ds post where ds: "ds \<noteq> []" "\<forall>c \<in> set ds. isDigit c"
      and s: "s = pre @ ds @ CHR '' '' # w @ post" by blast
    from ds have "matchDigitsWord w (pre @ ds @ CHR '' '' # w @ post) \<noteq> None"
      by (rule matchDigitsWord_complete)
    with none s show False by simp
  qed
next
  assume no: "\<not> (\<exists>pre ds post. ds \<noteq> [] \<and> (\<forall>c \<in> set ds. isDigit c) \<and> s = pre @ ds @ CHR '' '' # w @ post)"
  show "matchDigitsWord w s = None"
  proof (cases "matchDigitsWord w s")
    case None
    then show ?thesis .
  next
    case (Some ds)
    from matchDigitsWord_sound [OF Some] no show ?thesis by blast
  qed
qed

lemma length_ge_5:
  assumes "5 \<le> length xs"
  obtains a b c d e rest where "xs = a # b # c # d # e # rest"
proof -
  from assms obtain a r1 where 1: "xs = a # r1" "4 \<le> length r1" by (cases xs) auto
  then obtain b r2 where 2: "r1 = b # r2" "3 \<le> length r2" by (cases r1) auto
  then obtain c r3 where 3: "r2 = c # r3" "2 \<le> length r3" by (cases r2) auto
  then obtain d r4 where 4: "r3 = d # r4" "1 \<le> length r4" by (cases r3) auto
  then obtain e r5 where 5: "r4 = e # r5" by (cases r4) auto
  from 1 2 3 4 5 that show thesis by blast
qed

lemma parseCommit_lines:
  assumes "5 \<le> length (split [newline] block)"
  shows "parseCommit nd block =
           Inr \<lparr> hash = split [newline] block ! 0,
                 author = hd (split ''@'' (split [newline] block ! 1)),
                 message = split [newline] block ! 2,
                 timestamp = nd (split [newline] block ! 3),
                 changes = plus_count (insertions (last (split [newline] block)))
                                      (deletions (last (split [newline] block))) \<rparr>"
proof -
  from assms obtain h e m t x stats where l: "split [newline] block = h # e # m # t # x # stats"
    by (rule length_ge_5)
  show ?thesis by (simp add: parseCommit_def l)
qed

lemma parseCommit_short:
  assumes "length (split [newline] block) < 5"
  shows "parseCommit nd block = Inl TypeError"
  using assms by (auto simp add: parseCommit_def split: list.splits)

section \<open>Splitting a log into blocks\<close>

lemma split_nonempty: "sep \<noteq> [] \<Longrightarrow> split sep s \<noteq> []"
  by (induction sep s rule: split.induct) (auto split: list.splits)

lemma split_no_occurrence:
  "sep \<noteq> [] \<Longrightarrow> \<not> occurs sep s \<Longrightarrow> split sep s = [s]"
proof (induction s)
  case Nil
  then show ?case by (cases sep) simp_all
next
  case (Cons c cs)
  then obtain v va where sep: "sep = v # va" by (cases sep) auto
  from Cons show ?case unfolding sep by simp
qed

lemma prefix_shorter:
  "prefix xs (ys @ zs) \<Longrightarrow> length xs \<le> length ys \<Longrightarrow> prefix xs ys"
  by (auto simp add: prefix_append)

lemma occurs_append_left: "occurs sep s \<Longrightarrow> sep \<noteq> [] \<Longrightarrow> occurs sep (s @ t)"
proof (induction s)
  case Nil
  then show ?case by simp
next
  case (Cons c s)
  show ?case
  proof (cases "prefix sep (c # s)")
    case True
    then have "prefix sep ((c # s) @ t)" by (rule prefix_prefix)
    then show ?thesis by simp
  next
    case False
    with Cons show ?thesis by simp
  qed
qed

lemma split_at_separator:
  assumes "sep \<noteq> []" "\<not> occurs sep (b @ butlast sep)"
  shows "split sep (b @ sep @ rest) = b # split sep rest"
  using assms(2)
proof (induction b)
  case Nil
  from assms(1) obtain v va where sep: "sep = v # va" by (cases sep) auto
  have "split sep (sep @ rest) = [] # split sep (drop (length sep) (sep @ rest))"
    unfolding sep by simp
  then show ?case by simp
next
  case (Cons c b)
  from assms(1) obtain v va where sep: "sep = v # va" by (cases sep) auto
  from Cons.prems have no_here: "\<not> prefix sep (c # b @ butlast sep)"
    and no_later: "\<not> occurs sep (b @ butlast sep)"
    by simp_all
  have "\<not> prefix sep (c # b @ sep @ rest)"
  proof
    assume p: "prefix sep (c # b @ sep @ rest)"
    have eq: "c # b @ sep @ rest = (c # b @ butlast sep) @ last sep # rest"
      using assms(1) by simp
    have "length sep \<le> length (c # b @ butlast sep)"
      by simp
    with p have "prefix sep (c # b @ butlast sep)"
      unfolding eq by (rule prefix_shorter)
    with no_here show False by contradiction
  qed
  moreover have "split sep (b @ sep @ rest) = b # split sep rest"
    using no_later by (rule Cons.IH)
  ultimately show ?case
    unfolding sep by simp
qed

lemma split_blocks:
  assumes "sep \<noteq> []" "\<forall>b \<in> set (b0 # bs). \<not> occurs sep (b @ butlast sep)"
  shows "split sep (b0 @ concat (map (\<lambda>b. sep @ b) bs)) = b0 # bs"
  using assms(2)
proof (induction bs arbitrary: b0)
  case Nil
  then have "\<not> occurs sep b0"
    using occurs_append_left [of sep b0 "butlast sep"] assms(1) by auto
  with assms(1) show ?case by (simp add: split_no_occurrence)
next
  case (Cons b1 bs)
  from Cons.prems have "\<not> occurs sep (b0 @ butlast sep)" by simp
  with assms(1) have "split sep (b0 @ sep @ (b1 @ concat (map (\<lambda>b. sep @ b) bs)))
      = b0 # split sep (b1 @ concat (map (\<lambda>b. sep @ b) bs))"
    by (rule split_at_separator)
  moreover from Cons.prems have "split sep (b1 @ concat (map (\<lambda>b. sep @ b) bs)) = b1 # bs"
    by (intro Cons.IH) simp
  ultimately show ?case by simp
qed

lemma commitStrings_logOf:
  assumes "list_all wellFormedBlock bs"
  shows "commitStrings (logOf bs) = map trim bs"
proof -
  have ne: "delimiter \<noteq> []" by (simp add: delimiter_def)
  have empty: "\<not> occurs delimiter ([] @ butlast delimiter)"
    by (simp add: delimiter_def newline_def)
  from assms have "\<forall>b \<in> set bs. \<not> occurs delimiter (b @ butlast delimiter)"
    by (simp add: list_all_iff wellFormedBlock_def)
  with empty have "\<forall>b \<in> set ([] # bs). \<not> occurs delimiter (b @ butlast delimiter)"
    by simp
  with ne have "split delimiter ([] @ concat (map (\<lambda>b. delimiter @ b) bs)) = [] # bs"
    by (rule split_blocks)
  then show ?thesis by (simp add: commitStrings_def logOf_def)
qed

lemma commitStrings_no_delimiter:
  assumes "\<not> occurs delimiter rawLog"
  shows "commitStrings rawLog = []"
proof -
  have "delimiter \<noteq> []" by (simp add: delimiter_def)
  then have "split delimiter rawLog = [rawLog]"
    using assms by (rule split_no_occurrence)
  then show ?thesis by (simp add: commitStrings_def)
qed

lemma mapThrowing_all_Inr:
  assumes "\<forall>x \<in> set xs. \<exists>y. f x = Inr y"
  shows "\<exists>ys. mapThrowing f xs = Inr ys \<and> length ys = length xs
           \<and> (\<forall>i<length xs. f (xs ! i) = Inr (ys ! i))"
  using assms
proof (induction xs)
  case Nil
  show ?case by simp
next
  case (Cons x xs)
  then obtain y ys where y: "f x = Inr y" and ys: "mapThrowing f xs = Inr ys"
    "length ys = length xs" "\<forall>i<length xs. f (xs ! i) = Inr (ys ! i)"
    by auto
  have "\<forall>i<length (x # xs). f ((x # xs) ! i) = Inr ((y # ys) ! i)"
    using y ys(3) by (auto simp add: nth_Cons split: nat.splits)
  with y ys show ?case by simp
qed

lemma parseCommit_wellFormed:
  assumes "wellFormedBlock b"
  shows "\<exists>c. parseCommit nd (trim b) = Inr c \<and> hash c = hd (split [newline] (trim b))"
proof -
  from assms have len: "5 \<le> length (split [newline] (trim b))"
    by (simp add: wellFormedBlock_def)
  then have "split [newline] (trim b) \<noteq> []" by auto
  then have "hd (split [newline] (trim b)) = split [newline] (trim b) ! 0"
    by (rule hd_conv_nth)
  with parseCommit_lines [OF len, of nd] show ?thesis by simp
qed

lemma commits_logOf:
  assumes "list_all wellFormedBlock bs"
  shows "\<exists>cs. commits nd (logOf bs) = Inr cs \<and> length cs = length bs
           \<and> (\<forall>i<length bs. parseCommit nd (trim (bs ! i)) = Inr (cs ! i)
                 \<and> hash (cs ! i) = hd (split [newline] (trim (bs ! i))))"
proof -
  have "\<forall>s \<in> set (map trim bs). \<exists>c. parseCommit nd s = Inr c"
    using assms parseCommit_wellFormed [of _ nd] by (auto simp add: list_all_iff)
  from mapThrowing_all_Inr [OF this] obtain cs where
    cs: "mapThrowing (parseCommit nd) (map trim bs) = Inr cs" "length cs = length bs"
      "\<forall>i<length bs. parseCommit nd (map trim bs ! i) = Inr (cs ! i)"
    by auto
  have "parseCommit nd (trim (bs ! i)) = Inr (cs ! i)
          \<and> hash (cs ! i) = hd (split [newline] (trim (bs ! i)))" if "i < length bs" for i
  proof -
    from that cs(3) have p: "parseCommit nd (trim (bs ! i)) = Inr (cs ! i)" by simp
    from that assms have "wellFormedBlock (bs ! i)" by (simp add: list_all_length)
    from parseCommit_wellFormed [OF this, of nd] p show ?thesis by auto
  qed
  with cs(1,2) show ?thesis
    by (simp add: commits_def commitStrings_logOf [OF assms])
qed

text \<open>
  Claim C5, as stated, also promises the empty sequence for a log none of whose blocks can
  be parsed. It fails for a log that has a delimiter followed by text that is not a block:
  the text is taken as a block, and its parse throws.
\<close>

theorem unparsable_block_counterexample:
  "commitStrings ''.\<newline>.not a commit'' = [''not a commit'']
   \<and> parseCommit (\<lambda>_. NaN) ''not a commit'' = Inl TypeError
   \<and> commits (\<lambda>_. NaN) ''.\<newline>.not a commit'' = Inl TypeError"
  by (simp add: commits_def commitStrings_def delimiter_def newline_def trim_def isWhiteSpace_def
      parseCommit_def)

text \<open>
  Claim C5, amended. A log made of \<open>k\<close> well-formed blocks, each preceded by the delimiter, is
  split into exactly those blocks (the empty piece before the first delimiter is dropped), and
  the parser yields \<open>k\<close> commits in the order of the blocks: the \<open>i\<close>-th commit is the parse of
  the \<open>i\<close>-th block and carries its first line as hash. A log in which the delimiter does not
  occur, the empty log in particular, has no block and yields the empty sequence, not an
  error.
\<close>

theorem parser_round_trip:
  "(list_all wellFormedBlock bs \<longrightarrow>
      commitStrings (logOf bs) = map trim bs
      \<and> (\<exists>cs. commits nd (logOf bs) = Inr cs \<and> length cs = length bs
            \<and> (\<forall>i<length bs. parseCommit nd (trim (bs ! i)) = Inr (cs ! i)
                  \<and> hash (cs ! i) = hd (split [newline] (trim (bs ! i))))))
   \<and> (\<not> occurs delimiter rawLog \<longrightarrow> commits nd rawLog = Inr [])
   \<and> commits nd [] = Inr []"
proof (intro conjI impI)
  assume "list_all wellFormedBlock bs"
  then show "commitStrings (logOf bs) = map trim bs"
    by (rule commitStrings_logOf)
next
  assume "list_all wellFormedBlock bs"
  then show "\<exists>cs. commits nd (logOf bs) = Inr cs \<and> length cs = length bs
            \<and> (\<forall>i<length bs. parseCommit nd (trim (bs ! i)) = Inr (cs ! i)
                  \<and> hash (cs ! i) = hd (split [newline] (trim (bs ! i))))"
    by (rule commits_logOf)
next
  assume "\<not> occurs delimiter rawLog"
  then show "commits nd rawLog = Inr []"
    by (simp add: commits_def commitStrings_no_delimiter)
next
  show "commits nd [] = Inr []"
    by (simp add: commits_def commitStrings_def delimiter_def)
qed

lemmas parse_eval =
  commits_def commitStrings_def delimiter_def newline_def trim_def isWhiteSpace_def
  parseCommit_def insertions_def deletions_def insertionsMatch_def deletionsMatch_def
  isDigit_def parseInt_def decimalValue_def digitValue_def toCount_exact plus_count_enat
  plus_count_zero numeral_eq_enat

theorem parser_round_trip_witness:
  "list_all wellFormedBlock
     [''1f3a\<newline>dev@example.com\<newline>Add parser\<newline>2021-03-04 10:00:00 +0000\<newline>\<newline> src/index.ts | 2 +-\<newline> 1 file changed, 1 insertion(+), 1 deletion(-)\<newline>\<newline>'',
      ''9c2e\<newline>ann@example.com\<newline>Initial commit\<newline>2021-03-03 09:00:00 +0000\<newline>\<newline> README.md | 5 +++++\<newline> 1 file changed, 5 insertions(+)\<newline>'']
   \<and> commits (\<lambda>s. if s = ''2021-03-04 10:00:00 +0000'' then Num 1614852000000
                     else if s = ''2021-03-03 09:00:00 +0000'' then Num 1614762000000 else NaN)
       (logOf
         [''1f3a\<newline>dev@example.com\<newline>Add parser\<newline>2021-03-04 10:00:00 +0000\<newline>\<newline> src/index.ts | 2 +-\<newline> 1 file changed, 1 insertion(+), 1 deletion(-)\<newline>\<newline>'',
          ''9c2e\<newline>ann@example.com\<newline>Initial commit\<newline>2021-03-03 09:00:00 +0000\<newline>\<newline> README.md | 5 +++++\<newline> 1 file changed, 5 insertions(+)\<newline>''])
     = Inr [\<lparr>hash = ''1f3a'', author = ''dev'', message = ''Add parser'',
              timestamp = Num 1614852000000, changes = 2\<rparr>,
            \<lparr>hash = ''9c2e'', author = ''ann'', message = ''Initial commit'',
              timestamp = Num 1614762000000, changes = 5\<rparr>]"
proof -
  let ?bs =
    "[''1f3a\<newline>dev@example.com\<newline>Add parser\<newline>2021-03-04 10:00:00 +0000\<newline>\<newline> src/index.ts | 2 +-\<newline> 1 file changed, 1 insertion(+), 1 deletion(-)\<newline>\<newline>'',
      ''9c2e\<newline>ann@example.com\<newline>Initial commit\<newline>2021-03-03 09:00:00 +0000\<newline>\<newline> README.md | 5 +++++\<newline> 1 file changed, 5 insertions(+)\<newline>'']"
  let ?nd = "\<lambda>s. if s = ''2021-03-04 10:00:00 +0000'' then Num (1614852000000::int)
                     else if s = ''2021-03-03 09:00:00 +0000'' then Num 1614762000000 else NaN"
  have wf: "list_all wellFormedBlock ?bs"
    by (simp add: wellFormedBlock_def delimiter_def newline_def trim_def isWhiteSpace_def)
  from parser_round_trip [of ?bs ?nd "[]"] wf
  have strings: "commitStrings (logOf ?bs) = map trim ?bs"
    by blast
  have "mapThrowing (parseCommit ?nd) (map trim ?bs) =
      Inr [\<lparr>hash = ''1f3a'', author = ''dev'', message = ''Add parser'',
              timestamp = Num 1614852000000, changes = 2\<rparr>,
            \<lparr>hash = ''9c2e'', author = ''ann'', message = ''Initial commit'',
              timestamp = Num 1614762000000, changes = 5\<rparr>]"
    by (simp add: parse_eval)
  with wf strings show ?thesis
    by (simp only: commits_def simp_thms)
qed

section \<open>The change count of a block\<close>

lemmas count_eval =
  insertions_def deletions_def insertionsMatch_def deletionsMatch_def isDigit_def
  parseInt_def decimalValue_def digitValue_def toCount_exact plus_count_enat plus_count_zero
  numeral_eq_enat

lemma changes_example_16:
  "insertions ''3 files changed, 12 insertions(+), 4 deletions(-)'' = 12
   \<and> deletions ''3 files changed, 12 insertions(+), 4 deletions(-)'' = 4
   \<and> plus_count (insertions ''3 files changed, 12 insertions(+), 4 deletions(-)'')
        (deletions ''3 files changed, 12 insertions(+), 4 deletions(-)'') = 16"
  by (simp add: count_eval)

lemma changes_example_5:
  "insertions ''1 file changed, 5 insertions(+)'' = 5
   \<and> deletions ''1 file changed, 5 insertions(+)'' = 0
   \<and> plus_count (insertions ''1 file changed, 5 insertions(+)'')
        (deletions ''1 file changed, 5 insertions(+)'') = 5"
  by (simp add: count_eval)

lemma parseCommit_changes:
  assumes "5 \<le> length (split [newline] block)"
  shows "\<exists>c. parseCommit nd block = Inr c
           \<and> changes c = plus_count (insertions (last (split [newline] block)))
                                    (deletions (last (split [newline] block)))"
  using parseCommit_lines [OF assms, of nd] by simp

lemma missing_match_zero:
  assumes "\<not> (\<exists>pre ds post. ds \<noteq> [] \<and> (\<forall>c \<in> set ds. isDigit c)
              \<and> line = pre @ ds @ CHR '' '' # w @ post)"
  shows "matchDigitsWord w line = None"
  using assms matchDigitsWord_None_iff [of w line] by blast

text \<open>
  Claim C6, as stated for every block, fails for a block that ends with its four header
  lines: there is no last diffstat line, and instead of counting 0 the parse throws. And a
  count is not always the integer that stands in the line: it is the double nearest to it.
\<close>

theorem block_without_diffstat_counterexample:
  "parseCommit (\<lambda>_. NaN)
      ''9c2e\<newline>dev@example.com\<newline>Empty commit\<newline>2021-03-03 10:00:00 +0000''
     = Inl TypeError
   \<and> insertions ''1 file changed, 9007199254740993 insertions(+)'' = enat 9007199254740992"
proof -
  have "(9007199254740992::nat) < 2 ^ 1024"
    by simp
  then have "toCount 9007199254740993 = enat 9007199254740992"
    by (simp only: toCount_def roundToDouble_examples if_True)
  then show ?thesis
    by (simp add: parseCommit_def newline_def insertions_def insertionsMatch_def isDigit_def
        parseInt_def decimalValue_def digitValue_def)
qed

text \<open>
  Claim C6, amended. For every block with a line after the four header lines, parsing
  succeeds and \<open>changes\<close> is \<open>insertions + deletions\<close> of the last line, a floating-point sum
  that is the exact sum up to \<open>2^53\<close>. Each of the two is found on its own: it is 0 when the
  line has no run of digits followed by a space and the word, and otherwise the number
  denoted by such a run of digits standing directly before the word, as a double (exactly that
  number up to \<open>2^53\<close>). On a diffstat summary line the two are the printed counts, as
  doubles, an absent clause counting 0. In particular
  \<open>3 files changed, 12 insertions(+), 4 deletions(-)\<close> gives 16 and
  \<open>1 file changed, 5 insertions(+)\<close> gives 5.
\<close>

theorem changes_from_last_line:
  "(5 \<le> length (split [newline] block) \<longrightarrow>
      (\<exists>c. parseCommit nd block = Inr c
          \<and> changes c = plus_count (insertions (last (split [newline] block)))
                                   (deletions (last (split [newline] block)))))
   \<and> (a + b \<le> 2 ^ 53 \<longrightarrow> plus_count (enat a) (enat b) = enat (a + b))
   \<and> (\<not> (\<exists>pre ds post. ds \<noteq> [] \<and> (\<forall>c \<in> set ds. isDigit c)
              \<and> line = pre @ ds @ '' insertion'' @ post) \<longrightarrow> insertions line = 0)
   \<and> (\<not> (\<exists>pre ds post. ds \<noteq> [] \<and> (\<forall>c \<in> set ds. isDigit c)
              \<and> line = pre @ ds @ '' deletion'' @ post) \<longrightarrow> deletions line = 0)
   \<and> (insertionsMatch line = Some m \<longrightarrow>
        m \<noteq> [] \<and> (\<forall>c \<in> set m. isDigit c) \<and> (\<exists>pre post. line = pre @ m @ '' insertion'' @ post)
        \<and> insertions line = toCount (decimalValue m)
        \<and> (decimalValue m \<le> 2 ^ 53 \<longrightarrow> insertions line = enat (decimalValue m)))
   \<and> (deletionsMatch line = Some m \<longrightarrow>
        m \<noteq> [] \<and> (\<forall>c \<in> set m. isDigit c) \<and> (\<exists>pre post. line = pre @ m @ '' deletion'' @ post)
        \<and> deletions line = toCount (decimalValue m)
        \<and> (decimalValue m \<le> 2 ^ 53 \<longrightarrow> deletions line = enat (decimalValue m)))
   \<and> decimalValue (showNat n) = n
   \<and> insertions (diffstatLine f ins del) = (case ins of None \<Rightarrow> 0 | Some i \<Rightarrow> toCount i)
   \<and> deletions (diffstatLine f ins del) = (case del of None \<Rightarrow> 0 | Some d \<Rightarrow> toCount d)
   \<and> (n \<le> 2 ^ 53 \<longrightarrow> toCount n = enat n)
   \<and> (5 \<le> length (split [newline] block)
        \<and> last (split [newline] block) = ''3 files changed, 12 insertions(+), 4 deletions(-)''
      \<longrightarrow> (\<exists>c. parseCommit nd block = Inr c \<and> changes c = 16))
   \<and> (5 \<le> length (split [newline] block)
        \<and> last (split [newline] block) = ''1 file changed, 5 insertions(+)''
      \<longrightarrow> (\<exists>c. parseCommit nd block = Inr c \<and> changes c = 5))"
proof (intro conjI impI)
  assume "5 \<le> length (split [newline] block)"
  then show "\<exists>c. parseCommit nd block = Inr c
          \<and> changes c = plus_count (insertions (last (split [newline] block)))
                                   (deletions (last (split [newline] block)))"
    by (rule parseCommit_changes)
next
  assume "a + b \<le> 2 ^ 53"
  then show "plus_count (enat a) (enat b) = enat (a + b)"
    by (rule plus_count_exact)
next
  assume "\<not> (\<exists>pre ds post. ds \<noteq> [] \<and> (\<forall>c \<in> set ds. isDigit c)
              \<and> line = pre @ ds @ '' insertion'' @ post)"
  then have "matchDigitsWord ''insertion'' line = None"
    by (intro missing_match_zero) simp
  then show "insertions line = 0"
    by (simp add: insertions_def insertionsMatch_def)
next
  assume "\<not> (\<exists>pre ds post. ds \<noteq> [] \<and> (\<forall>c \<in> set ds. isDigit c)
              \<and> line = pre @ ds @ '' deletion'' @ post)"
  then have "matchDigitsWord ''deletion'' line = None"
    by (intro missing_match_zero) simp
  then show "deletions line = 0"
    by (simp add: deletions_def deletionsMatch_def)
next
  assume m: "insertionsMatch line = Some m"
  then have "matchDigitsWord ''insertion'' line = Some m"
    by (simp add: insertionsMatch_def)
  from matchDigitsWord_sound [OF this]
  show "m \<noteq> []" "\<forall>c \<in> set m. isDigit c" "\<exists>pre post. line = pre @ m @ '' insertion'' @ post"
    by simp_all
  from m show val: "insertions line = toCount (decimalValue m)"
    by (simp add: insertions_def parseInt_def)
  assume "decimalValue m \<le> 2 ^ 53"
  then show "insertions line = enat (decimalValue m)"
    unfolding val by (rule toCount_exact)
next
  assume m: "deletionsMatch line = Some m"
  then have "matchDigitsWord ''deletion'' line = Some m"
    by (simp add: deletionsMatch_def)
  from matchDigitsWord_sound [OF this]
  show "m \<noteq> []" "\<forall>c \<in> set m. isDigit c" "\<exists>pre post. line = pre @ m @ '' deletion'' @ post"
    by simp_all
  from m show val: "deletions line = toCount (decimalValue m)"
    by (simp add: deletions_def parseInt_def)
  assume "decimalValue m \<le> 2 ^ 53"
  then show "deletions line = enat (decimalValue m)"
    unfolding val by (rule toCount_exact)
next
  show "decimalValue (showNat n) = n"
    by (rule decimalValue_showNat)
next
  show "insertions (diffstatLine f ins del) = (case ins of None \<Rightarrow> 0 | Some i \<Rightarrow> toCount i)"
    by (rule insertions_diffstatLine)
next
  show "deletions (diffstatLine f ins del) = (case del of None \<Rightarrow> 0 | Some d \<Rightarrow> toCount d)"
    by (rule deletions_diffstatLine)
next
  assume "n \<le> 2 ^ 53"
  then show "toCount n = enat n"
    by (rule toCount_exact)
next
  assume a: "5 \<le> length (split [newline] block)
        \<and> last (split [newline] block) = ''3 files changed, 12 insertions(+), 4 deletions(-)''"
  with parseCommit_changes [of block nd] changes_example_16
  show "\<exists>c. parseCommit nd block = Inr c \<and> changes c = 16"
    by (auto simp del: split.simps)
next
  assume a: "5 \<le> length (split [newline] block)
        \<and> last (split [newline] block) = ''1 file changed, 5 insertions(+)''"
  with parseCommit_changes [of block nd] changes_example_5
  show "\<exists>c. parseCommit nd block = Inr c \<and> changes c = 5"
    by (auto simp del: split.simps)
qed

theorem changes_from_last_line_witness:
  "parseCommit (\<lambda>_. NaN)
      ''1f3a\<newline>dev@example.com\<newline>Add parser\<newline>2021-03-04 10:00:00 +0000\<newline>\<newline> a.ts | 9 ++++\<newline> b.ts | 7 ++++\<newline>3 files changed, 12 insertions(+), 4 deletions(-)''
     = Inr \<lparr>hash = ''1f3a'', author = ''dev'', message = ''Add parser'', timestamp = NaN,
             changes = 16\<rparr>
   \<and> insertions (diffstatLine 3 (Some 12) (Some 4)) = 12
   \<and> deletions (diffstatLine 3 (Some 12) (Some 4)) = 4
   \<and> insertions (diffstatLine 1 None (Some 5)) = 0
   \<and> deletions (diffstatLine 1 None (Some 5)) = 5"
proof -
  let ?block = "''1f3a\<newline>dev@example.com\<newline>Add parser\<newline>2021-03-04 10:00:00 +0000\<newline>\<newline> a.ts | 9 ++++\<newline> b.ts | 7 ++++\<newline>3 files changed, 12 insertions(+), 4 deletions(-)''"
  have lines: "split [newline] ?block =
      [''1f3a'', ''dev@example.com'', ''Add parser'', ''2021-03-04 10:00:00 +0000'', [],
       '' a.ts | 9 ++++'', '' b.ts | 7 ++++'',
       ''3 files changed, 12 insertions(+), 4 deletions(-)'']"
    by (simp add: newline_def)
  have hyp: "5 \<le> length (split [newline] ?block)
      \<and> last (split [newline] ?block) = ''3 files changed, 12 insertions(+), 4 deletions(-)''"
    unfolding lines by simp
  note first = changes_from_last_line [of ?block "\<lambda>_. NaN" 0 0 "[]" "[]" 12 3 "Some 12" "Some 4"]
  note second = changes_from_last_line [of "[]" "\<lambda>_. NaN" 0 0 "[]" "[]" 5 1 None "Some 5"]
  from first hyp obtain c where c: "parseCommit (\<lambda>_. NaN) ?block = Inr c" "changes c = 16"
    by blast
  have "\<exists>x. parseCommit (\<lambda>_. NaN) ?block =
      Inr \<lparr>hash = ''1f3a'', author = ''dev'', message = ''Add parser'', timestamp = NaN,
             changes = x\<rparr>"
    unfolding parseCommit_def lines by simp
  with c have parsed: "parseCommit (\<lambda>_. NaN) ?block =
      Inr \<lparr>hash = ''1f3a'', author = ''dev'', message = ''Add parser'', timestamp = NaN,
             changes = 16\<rparr>"
    by auto
  from first have
    "insertions (diffstatLine 3 (Some 12) (Some 4)) = (case Some 12 of None \<Rightarrow> 0 | Some i \<Rightarrow> toCount i)"
    "deletions (diffstatLine 3 (Some 12) (Some 4)) = (case Some 4 of None \<Rightarrow> 0 | Some d \<Rightarrow> toCount d)"
    by blast+
  then have "insertions (diffstatLine 3 (Some 12) (Some 4)) = 12"
      "deletions (diffstatLine 3 (Some 12) (Some 4)) = 4"
    by (simp_all add: toCount_exact numeral_eq_enat)
  moreover from second have
    "insertions (diffstatLine 1 None (Some 5)) = (case None of None \<Rightarrow> 0 | Some i \<Rightarrow> toCount i)"
    "deletions (diffstatLine 1 None (Some 5)) = (case Some 5 of None \<Rightarrow> 0 | Some d \<Rightarrow> toCount d)"
    by blast+
  then have "insertions (diffstatLine 1 None (Some 5)) = 0"
      "deletions (diffstatLine 1 None (Some 5)) = 5"
    by (simp_all add: toCount_exact numeral_eq_enat)
  ultimately show ?thesis using parsed by blast
qed

end
